theory Spec2Isabelle
  imports Complex_Main "HOL-Library.Word"
begin

section \<open>Ray tracing of one sphere: the arithmetic model\<close>

text \<open>
  The program (\<^verbatim>\<open>src/main.cpp\<close>) computes with C++ \<^verbatim>\<open>double\<close>. The development
  has two models of that arithmetic.

  The exact model, in this section, reads every \<^verbatim>\<open>double\<close> as a real number: the
  operations \<^verbatim>\<open>+ - * /\<close>, \<^verbatim>\<open>std::sqrt\<close>, \<^verbatim>\<open><\<close> and \<^verbatim>\<open>std::max\<close> are the exact
  ones, so rounding, overflow to an infinity and NaN are outside it. It fixes which
  formulas the program evaluates: the roots that \<open>intersect\<close> computes and selects, the
  value it leaves in its out-parameter, the shading formula and the sampler of \<^verbatim>\<open>main\<close>.
  The program can divide by zero in three places: when it normalizes the zero vector,
  when \<open>intersect\<close> is given a ray of direction zero, and when \<open>trace\<close> finds the light
  at the point hit. There its quotient is an infinity or NaN, while the quotient of the
  exact model is 0. A theorem whose conclusion needs the value of such a quotient has the
  hypothesis that excludes the case; the others state what holds for either value.

  The double model, in the next section, computes with IEEE 754 binary64 numbers and
  rounds every operation. What depends on the rounding is stated there: the length of
  the direction that a ray stores, and the rays for which \<open>trace\<close> returns the background
  colour.

  The \<^verbatim>\<open>int\<close> of the program is 32 bits wide. It is read as a mathematical integer,
  with a check of the range where the program computes with it.
\<close>

subsection \<open>Vector3\<close>

text \<open>
  \<^verbatim>\<open>struct Vector3 { double x, y, z; ... }\<close>. The selectors are called \<open>vx\<close>, \<open>vy\<close>,
  \<open>vz\<close> (the names \<open>x\<close>, \<open>y\<close>, \<open>z\<close> stay free for variables).
\<close>

datatype Vector3 = Vector3 (vx: real) (vy: real) (vz: real)

text \<open>
  \<^verbatim>\<open>operator+\<close>, \<^verbatim>\<open>operator-\<close>, \<^verbatim>\<open>operator*(double)\<close>, \<^verbatim>\<open>dot\<close>, \<^verbatim>\<open>len\<close> and
  \<^verbatim>\<open>normalize\<close> (here \<open>normalize_vec\<close>).
\<close>

definition vadd :: "Vector3 \<Rightarrow> Vector3 \<Rightarrow> Vector3" where
  "vadd u v = Vector3 (vx u + vx v) (vy u + vy v) (vz u + vz v)"

definition vsub :: "Vector3 \<Rightarrow> Vector3 \<Rightarrow> Vector3" where
  "vsub u v = Vector3 (vx u - vx v) (vy u - vy v) (vz u - vz v)"

definition vmul :: "Vector3 \<Rightarrow> real \<Rightarrow> Vector3" where
  "vmul u t = Vector3 (vx u * t) (vy u * t) (vz u * t)"

definition dot :: "Vector3 \<Rightarrow> Vector3 \<Rightarrow> real" where
  "dot u v = vx u * vx v + vy u * vy v + vz u * vz v"

definition len :: "Vector3 \<Rightarrow> real" where
  "len u = sqrt (vx u * vx u + vy u * vy u + vz u * vz u)"

definition normalize_vec :: "Vector3 \<Rightarrow> Vector3" where
  "normalize_vec u =
     (let l = sqrt (vx u * vx u + vy u * vy u + vz u * vz u)
      in Vector3 (vx u / l) (vy u / l) (vz u / l))"

subsection \<open>Ray, Light, Sphere\<close>

record Ray =
  origin :: Vector3
  direction :: Vector3

text \<open>The constructor \<^verbatim>\<open>Ray(origin, direction)\<close>: the direction is stored normalized.\<close>

definition mk_Ray :: "Vector3 \<Rightarrow> Vector3 \<Rightarrow> Ray" where
  "mk_Ray orig dir = \<lparr>origin = orig, direction = normalize_vec dir\<rparr>"

record Light =
  pos :: Vector3
  intensity :: real

record Sphere =
  center :: Vector3
  radius :: real
  color :: Vector3
  albedo :: real

text \<open>
  \<^verbatim>\<open>bool Sphere::intersect(const Ray& ray, double& t) const\<close>. The out-parameter is
  passed as state: the third argument is the content of \<open>t\<close> before the call, the second
  component of the result its content after the call.
\<close>

definition intersect :: "Sphere \<Rightarrow> Ray \<Rightarrow> real \<Rightarrow> bool \<times> real" where
  "intersect s ray t =
     (let oc = vsub (origin ray) (center s);
          a = dot (direction ray) (direction ray);
          b = 2 * dot oc (direction ray);
          c = dot oc oc - radius s * radius s;
          delta = b * b - 4 * a * c
      in if delta < 0 then (False, t)
         else (let t1 = (- b - sqrt delta) / (2 * a);
                   t2 = (- b + sqrt delta) / (2 * a);
                   t' = (if t1 < t2 then t1 else t2)
               in (t' > 0, t')))"

text \<open>
  \<^verbatim>\<open>Vector3 trace(const Ray&, const Sphere&, const Light&)\<close>. The local \<^verbatim>\<open>double t;\<close>
  is declared without an initial value: its content at the call of \<open>intersect\<close> is the
  first argument \<open>t0\<close> of the model.
\<close>

definition trace :: "real \<Rightarrow> Ray \<Rightarrow> Sphere \<Rightarrow> Light \<Rightarrow> Vector3" where
  "trace t0 ray sphere light =
     (case intersect sphere ray t0 of
        (hit, t) \<Rightarrow>
          if hit then
            (let intersection_point = vadd (origin ray) (vmul (direction ray) t);
                 normal = normalize_vec (vsub intersection_point (center sphere));
                 light_dir = normalize_vec (vsub (pos light) intersection_point);
                 distance = len (vsub (pos light) intersection_point);
                 cosine = max 0 (dot normal light_dir);
                 L = intensity light / (distance * distance)
             in vmul (color sphere) (albedo sphere * L * cosine))
          else Vector3 0.1 0.1 0.1)"

subsection \<open>The quantities of the intersection test\<close>

text \<open>
  The coefficients of the quadratic \<open>a t\<^sup>2 + b t + c = 0\<close>, its discriminant and its two
  roots, as the specification names them.
\<close>

definition quad_a :: "Sphere \<Rightarrow> Ray \<Rightarrow> real" where
  "quad_a s ray = dot (direction ray) (direction ray)"

definition quad_b :: "Sphere \<Rightarrow> Ray \<Rightarrow> real" where
  "quad_b s ray = 2 * dot (vsub (origin ray) (center s)) (direction ray)"

definition quad_c :: "Sphere \<Rightarrow> Ray \<Rightarrow> real" where
  "quad_c s ray =
     dot (vsub (origin ray) (center s)) (vsub (origin ray) (center s)) - (radius s)\<^sup>2"

definition discriminant :: "Sphere \<Rightarrow> Ray \<Rightarrow> real" where
  "discriminant s ray = (quad_b s ray)\<^sup>2 - 4 * quad_a s ray * quad_c s ray"

definition root1 :: "Sphere \<Rightarrow> Ray \<Rightarrow> real" where
  "root1 s ray = (- quad_b s ray - sqrt (discriminant s ray)) / (2 * quad_a s ray)"

definition root2 :: "Sphere \<Rightarrow> Ray \<Rightarrow> real" where
  "root2 s ray = (- quad_b s ray + sqrt (discriminant s ray)) / (2 * quad_a s ray)"

subsection \<open>The image encoder\<close>

text \<open>
  The overflow of a signed \<^verbatim>\<open>int\<close> and \<^verbatim>\<open>operator[]\<close> of a vector outside its
  range, which the C++ standard leaves undefined, are results of their own in the model.
\<close>

datatype undefined_behaviour = SignedOverflow | IndexOutOfRange

type_synonym byte = "8 word"

definition int32 :: "int \<Rightarrow> bool" where
  "int32 n = (- (2 ^ 31) \<le> n \<and> n < 2 ^ 31)"

text \<open>
  \<^verbatim>\<open>static_cast<uint8_t>(v)\<close> of a \<^verbatim>\<open>double\<close> discards the fractional part (it
  rounds towards zero). The C++ standard defines the result when the truncated value is
  in \<open>0..255\<close> and leaves the conversion undefined otherwise. The model takes what the
  program does on its target, x86-64: the compilers convert with the instruction
  \<^verbatim>\<open>cvttsd2si\<close>, which gives the truncated value as a 32-bit signed integer, or
  \<open>-2\<^sup>3\<^sup>1\<close> when it does not fit, and the low 8 bits of that integer are stored.
  Nothing is clamped.
\<close>

definition trunc_toward_zero :: "real \<Rightarrow> int" where
  "trunc_toward_zero v = (if 0 \<le> v then \<lfloor>v\<rfloor> else \<lceil>v\<rceil>)"

definition cvttsd2si :: "real \<Rightarrow> int" where
  "cvttsd2si v = (if int32 (trunc_toward_zero v) then trunc_toward_zero v else - (2 ^ 31))"

definition to_uint8 :: "real \<Rightarrow> byte" where
  "to_uint8 v = word_of_int (cvttsd2si v)"

text \<open>
  The two headers, declared under \<^verbatim>\<open>#pragma pack(push, 1)\<close>. The fields \<open>size\<close>,
  \<open>width\<close> and \<open>height\<close> of \<open>BMPInfoHeader\<close> carry the suffix \<open>_info\<close>. An
  \<^verbatim>\<open>int32_t\<close> field is a 32-bit word read with \<open>sint\<close>.
\<close>

record BMPHeader =
  fileType :: "16 word"
  fileSize :: "32 word"
  reserved1 :: "16 word"
  reserved2 :: "16 word"
  offsetData :: "32 word"

record BMPInfoHeader =
  size_info :: "32 word"
  width_info :: "32 word"
  height_info :: "32 word"
  planes :: "16 word"
  bitCount :: "16 word"
  compression :: "32 word"
  sizeImage :: "32 word"
  xPixelsPerMeter :: "32 word"
  yPixelsPerMeter :: "32 word"
  colorsUsed :: "32 word"
  colorsImportant :: "32 word"

text \<open>The default member initializers.\<close>

definition BMPHeader_init :: BMPHeader where
  "BMPHeader_init =
     \<lparr>fileType = 0x4D42, fileSize = 0, reserved1 = 0, reserved2 = 0, offsetData = 54\<rparr>"

definition BMPInfoHeader_init :: BMPInfoHeader where
  "BMPInfoHeader_init =
     \<lparr>size_info = 40, width_info = 0, height_info = 0, planes = 1, bitCount = 24,
      compression = 0, sizeImage = 0, xPixelsPerMeter = 0, yPixelsPerMeter = 0,
      colorsUsed = 0, colorsImportant = 0\<rparr>"

text \<open>
  \<^verbatim>\<open>outFile.write((char*)&header, sizeof(header))\<close> writes the bytes of the object as
  they lie in memory. The model fixes the target the program is built for: the packing
  pragma is honoured (the fields follow each other in declaration order, without
  padding) and an integer is stored least significant byte first, as on x86-64 and
  AArch64.
\<close>

fun le_bytes :: "nat \<Rightarrow> nat \<Rightarrow> byte list" where
  "le_bytes 0 v = []"
| "le_bytes (Suc n) v = word_of_nat (v mod 256) # le_bytes n (v div 256)"

definition bytes16 :: "16 word \<Rightarrow> byte list" where
  "bytes16 v = le_bytes 2 (unat v)"

definition bytes32 :: "32 word \<Rightarrow> byte list" where
  "bytes32 v = le_bytes 4 (unat v)"

definition BMPHeader_bytes :: "BMPHeader \<Rightarrow> byte list" where
  "BMPHeader_bytes h =
     bytes16 (fileType h) @ bytes32 (fileSize h) @ bytes16 (reserved1 h) @
     bytes16 (reserved2 h) @ bytes32 (offsetData h)"

definition BMPInfoHeader_bytes :: "BMPInfoHeader \<Rightarrow> byte list" where
  "BMPInfoHeader_bytes ih =
     bytes32 (size_info ih) @ bytes32 (width_info ih) @ bytes32 (height_info ih) @
     bytes16 (planes ih) @ bytes16 (bitCount ih) @ bytes32 (compression ih) @
     bytes32 (sizeImage ih) @ bytes32 (xPixelsPerMeter ih) @ bytes32 (yPixelsPerMeter ih) @
     bytes32 (colorsUsed ih) @ bytes32 (colorsImportant ih)"

text \<open>\<^verbatim>\<open>sizeof(BMPHeader)\<close> and \<^verbatim>\<open>sizeof(BMPInfoHeader)\<close> under the packing pragma.\<close>

definition sizeof_BMPHeader :: int where
  "sizeof_BMPHeader = 2 + 4 + 2 + 2 + 4"

definition sizeof_BMPInfoHeader :: int where
  "sizeof_BMPInfoHeader = 4 + 4 + 4 + 2 + 2 + 4 + 4 + 4 + 4 + 4 + 4"

text \<open>
  The inner loop of \<open>writeBMP\<close>, \<^verbatim>\<open>for (int i = 0; i < width; ++i)\<close>, from the
  counter \<open>i\<close> on. The last argument is the content of the output stream so far; the
  result is its content after the loop.
\<close>

function row_loop ::
  "int \<Rightarrow> Vector3 list \<Rightarrow> int \<Rightarrow> int \<Rightarrow> byte list \<Rightarrow> undefined_behaviour + byte list" where
  "row_loop width framebuffer j i out =
     (if i < width then
        (if \<not> int32 (j * width) \<or> \<not> int32 (j * width + i) then Inl SignedOverflow
         else if j * width + i < 0 \<or> int (length framebuffer) \<le> j * width + i
           then Inl IndexOutOfRange
         else
           (let pixel = framebuffer ! nat (j * width + i);
                r = to_uint8 (255.999 * vx pixel);
                g = to_uint8 (255.999 * vy pixel);
                b = to_uint8 (255.999 * vz pixel)
            in row_loop width framebuffer j (i + 1) (out @ [b, g, r])))
      else Inr out)"
  by pat_completeness auto
termination
  by (relation "measure (\<lambda>(width, framebuffer, j, i, out). nat (width - i))") auto

declare row_loop.simps [simp del]

text \<open>The outer loop, \<^verbatim>\<open>for (int j = height - 1; j >= 0; --j)\<close>, from the counter \<open>j\<close> on.\<close>

function rows_loop ::
  "int \<Rightarrow> Vector3 list \<Rightarrow> int \<Rightarrow> byte list \<Rightarrow> undefined_behaviour + byte list" where
  "rows_loop width framebuffer j out =
     (if j \<ge> 0 then
        (case row_loop width framebuffer j 0 out of
           Inl e \<Rightarrow> Inl e
         | Inr out' \<Rightarrow> rows_loop width framebuffer (j - 1) out')
      else Inr out)"
  by pat_completeness auto
termination
  by (relation "measure (\<lambda>(width, framebuffer, j, out). nat (j + 1))") auto

declare rows_loop.simps [simp del]

text \<open>
  \<^verbatim>\<open>void writeBMP(const char* filename, int width, int height, const
  std::vector<Vector3>& framebuffer)\<close>: the result is the sequence of bytes written to
  the stream, which is the content of the file when the file can be opened and written.
  \<^verbatim>\<open>sizeof(...) + sizeof(...) + width * height * 3\<close> is computed in \<^verbatim>\<open>size_t\<close> from the
  \<^verbatim>\<open>int\<close> product and stored in 32 bits.
\<close>

definition writeBMP ::
  "int \<Rightarrow> int \<Rightarrow> Vector3 list \<Rightarrow> undefined_behaviour + byte list" where
  "writeBMP width height framebuffer =
     (if \<not> int32 (width * height) \<or> \<not> int32 (width * height * 3) then Inl SignedOverflow
      else
        (let header = BMPHeader_init
               \<lparr>fileSize :=
                  word_of_int (sizeof_BMPHeader + sizeof_BMPInfoHeader + width * height * 3)\<rparr>;
             infoHeader = BMPInfoHeader_init
               \<lparr>width_info := word_of_int width, height_info := word_of_int height\<rparr>;
             out = BMPHeader_bytes header @ BMPInfoHeader_bytes infoHeader
         in if \<not> int32 (height - 1) then Inl SignedOverflow
            else rows_loop width framebuffer (height - 1) out))"

subsection \<open>The layout of the file\<close>

text \<open>
  The description of the file that the theorems on the encoder compare \<open>writeBMP\<close>
  with. A pixel is its blue, green and red channel in that order, each the conversion of
  \<open>255.999\<close> times the component; a row is its pixels from column 0 on; the pixel data
  are the rows from the last to the first.
\<close>

definition bgr :: "Vector3 \<Rightarrow> byte list" where
  "bgr p = [to_uint8 (255.999 * vz p), to_uint8 (255.999 * vy p), to_uint8 (255.999 * vx p)]"

text \<open>The three products of a pixel are in the range of a 32-bit integer.\<close>

definition pixel_in_range :: "Vector3 \<Rightarrow> bool" where
  "pixel_in_range p =
     (int32 (trunc_toward_zero (255.999 * vx p)) \<and> int32 (trunc_toward_zero (255.999 * vy p)) \<and>
      int32 (trunc_toward_zero (255.999 * vz p)))"

definition row_bytes :: "int \<Rightarrow> Vector3 list \<Rightarrow> int \<Rightarrow> byte list" where
  "row_bytes w fb j = concat (map (\<lambda>i. bgr (fb ! nat (j * w + i))) [0..w - 1])"

definition pixel_data :: "int \<Rightarrow> int \<Rightarrow> Vector3 list \<Rightarrow> byte list" where
  "pixel_data w h fb = concat (map (row_bytes w fb) (rev [0..h - 1]))"

text \<open>
  The 14 bytes of the file header followed by the 40 bytes of the info header, for an
  image of width \<open>w\<close> and height \<open>h\<close>.
\<close>

definition header_bytes :: "int \<Rightarrow> int \<Rightarrow> byte list" where
  "header_bytes w h =
     [0x42, 0x4D] @ bytes32 (word_of_int (14 + 40 + w * h * 3)) @ [0, 0] @ [0, 0] @
     [54, 0, 0, 0] @
     [40, 0, 0, 0] @ bytes32 (word_of_int w) @ bytes32 (word_of_int h) @ [1, 0] @ [24, 0] @
     [0, 0, 0, 0] @ [0, 0, 0, 0] @ [0, 0, 0, 0] @ [0, 0, 0, 0] @ [0, 0, 0, 0] @ [0, 0, 0, 0]"

text \<open>The number that a sequence of bytes denotes, least significant byte first.\<close>

fun le_value :: "byte list \<Rightarrow> nat" where
  "le_value [] = 0"
| "le_value (b # bs) = unat b + 256 * le_value bs"

subsection \<open>The camera and viewport of \<^verbatim>\<open>main\<close>\<close>

text \<open>
  The locals of \<^verbatim>\<open>main\<close> that the sampling loop reads, with the values \<^verbatim>\<open>main\<close> gives
  them. \<^verbatim>\<open>(double)width / height * viewport_height\<close> divides first.
\<close>

definition width :: int where
  "width = 800"

definition height :: int where
  "height = 600"

definition camera :: Vector3 where
  "camera = Vector3 0 0 0"

definition viewport_height :: real where
  "viewport_height = 2.0"

definition viewport_width :: real where
  "viewport_width = real_of_int width / real_of_int height * viewport_height"

definition focal_length :: real where
  "focal_length = 1.0"

definition horizontal :: Vector3 where
  "horizontal = Vector3 viewport_width 0 0"

definition vertical :: Vector3 where
  "vertical = Vector3 0 viewport_height 0"

definition lower_left_corner :: Vector3 where
  "lower_left_corner =
     vsub (vsub (vsub camera (vmul horizontal 0.5)) (vmul vertical 0.5))
       (Vector3 0 0 focal_length)"

text \<open>The scene of \<^verbatim>\<open>main\<close>.\<close>

definition sphere :: Sphere where
  "sphere = \<lparr>center = Vector3 0 0 (- 1), radius = 0.5, color = Vector3 1 0 0, albedo = 1\<rparr>"

definition light :: Light where
  "light = \<lparr>pos = Vector3 1 1 0, intensity = 1.5\<rparr>"

text \<open>
  The body of the loop over \<open>j\<close> and \<open>i\<close>: the direction handed to the \<open>Ray\<close>
  constructor at pixel \<open>(i, j)\<close>, and the ray constructed from it.
\<close>

definition main_u :: "int \<Rightarrow> real" where
  "main_u i = real_of_int i / real_of_int (width - 1)"

definition main_v :: "int \<Rightarrow> real" where
  "main_v j = real_of_int j / real_of_int (height - 1)"

definition main_dir :: "int \<Rightarrow> int \<Rightarrow> Vector3" where
  "main_dir i j =
     vsub (vadd (vadd lower_left_corner (vmul horizontal (main_u i))) (vmul vertical (main_v j)))
       camera"

definition main_ray :: "int \<Rightarrow> int \<Rightarrow> Ray" where
  "main_ray i j = mk_Ray camera (main_dir i j)"

section \<open>Ray tracing of one sphere: double-precision arithmetic\<close>

text \<open>
  The second model of the arithmetic. A \<^verbatim>\<open>double\<close> is an IEEE 754 binary64 value: a
  finite number, one of the two infinities, or NaN. Every operation computes the exact
  result and rounds it to the nearest representable number, ties to the even significand,
  and every operation of an expression is rounded on its own (SSE2 arithmetic on x86-64,
  no fused multiply-add). A result whose rounded magnitude exceeds the largest finite
  number is the infinity of its sign.

  A finite value is carried as the real number it denotes. The type has more finite values
  than the format (any real number), which makes a statement about all values of the type
  a statement about all values of the format; a counterexample names values of the format.
  The sign of a zero is not represented: the program divides only by square roots, by sums
  of squares and by twice a sum of squares, none of which is the negative zero, and
  nothing else in it tells the two zeros apart.
\<close>

datatype double = Finite real | PInf | NInf | NaN

text \<open>The largest finite number.\<close>

definition max_double :: real where
  "max_double = (2 ^ 53 - 1) * 2 ^ 971"

text \<open>
  The exponent of the unit in the last place of a number: 52 below the exponent of the
  number, and \<open>-1074\<close> in the subnormal range.
\<close>

definition ulp_exponent :: "real \<Rightarrow> int" where
  "ulp_exponent x = max (\<lfloor>log 2 \<bar>x\<bar>\<rfloor> - 52) (- 1074)"

text \<open>The nearest integer, a tie going to the even one.\<close>

definition round_even :: "real \<Rightarrow> int" where
  "round_even y =
     (if y - of_int \<lfloor>y\<rfloor> < 1 / 2 then \<lfloor>y\<rfloor>
      else if 1 / 2 < y - of_int \<lfloor>y\<rfloor> then \<lfloor>y\<rfloor> + 1
      else if even \<lfloor>y\<rfloor> then \<lfloor>y\<rfloor> else \<lfloor>y\<rfloor> + 1)"

text \<open>Rounding to the nearest number of the format with an unbounded exponent above.\<close>

definition rd :: "real \<Rightarrow> real" where
  "rd x = of_int (round_even (x / 2 powi ulp_exponent x)) * 2 powi ulp_exponent x"

text \<open>The result of an operation whose exact value is \<open>x\<close>.\<close>

definition to_double :: "real \<Rightarrow> double" where
  "to_double x =
     (if max_double < \<bar>rd x\<bar> then (if 0 < x then PInf else NInf) else Finite (rd x))"


fun dadd :: "double \<Rightarrow> double \<Rightarrow> double" where
  "dadd (Finite a) (Finite b) = to_double (a + b)"
| "dadd NaN y = NaN"
| "dadd x NaN = NaN"
| "dadd PInf NInf = NaN"
| "dadd NInf PInf = NaN"
| "dadd PInf y = PInf"
| "dadd x PInf = PInf"
| "dadd NInf y = NInf"
| "dadd x NInf = NInf"


fun dmul :: "double \<Rightarrow> double \<Rightarrow> double" where
  "dmul (Finite a) (Finite b) = to_double (a * b)"
| "dmul NaN y = NaN"
| "dmul x NaN = NaN"
| "dmul (Finite a) PInf = (if a = 0 then NaN else if 0 < a then PInf else NInf)"
| "dmul (Finite a) NInf = (if a = 0 then NaN else if 0 < a then NInf else PInf)"
| "dmul PInf (Finite b) = (if b = 0 then NaN else if 0 < b then PInf else NInf)"
| "dmul NInf (Finite b) = (if b = 0 then NaN else if 0 < b then NInf else PInf)"
| "dmul PInf PInf = PInf"
| "dmul PInf NInf = NInf"
| "dmul NInf PInf = NInf"
| "dmul NInf NInf = PInf"

fun ddiv :: "double \<Rightarrow> double \<Rightarrow> double" where
  "ddiv (Finite a) (Finite b) =
     (if b = 0 then (if a = 0 then NaN else if 0 < a then PInf else NInf)
      else to_double (a / b))"
| "ddiv NaN y = NaN"
| "ddiv x NaN = NaN"
| "ddiv (Finite a) y = Finite 0"
| "ddiv PInf (Finite b) = (if 0 \<le> b then PInf else NInf)"
| "ddiv NInf (Finite b) = (if 0 \<le> b then NInf else PInf)"
| "ddiv x y = NaN"

fun dsqrt :: "double \<Rightarrow> double" where
  "dsqrt (Finite a) = (if a < 0 then NaN else Finite (rd (sqrt a)))"
| "dsqrt PInf = PInf"
| "dsqrt NInf = NaN"
| "dsqrt NaN = NaN"



subsection \<open>Vector3, Ray, Light, Sphere\<close>

text \<open>
  The structures and functions of the program once more, over \<open>double\<close>. Each name is
  the name of the exact model with the suffix \<open>_d\<close>; the operations stand in the order
  in which the expressions of the source evaluate them. The parameters \<^verbatim>\<open>sphere\<close> and
  \<^verbatim>\<open>light\<close> of \<open>trace\<close> are called \<open>sph\<close> and \<open>lgt\<close> here.
\<close>

datatype Vector3_d = Vector3_d (x_d: double) (y_d: double) (z_d: double)





definition len_d :: "Vector3_d \<Rightarrow> double" where
  "len_d u =
     dsqrt (dadd (dadd (dmul (x_d u) (x_d u)) (dmul (y_d u) (y_d u))) (dmul (z_d u) (z_d u)))"

definition normalize_d :: "Vector3_d \<Rightarrow> Vector3_d" where
  "normalize_d u =
     (let l = dsqrt (dadd (dadd (dmul (x_d u) (x_d u)) (dmul (y_d u) (y_d u)))
                (dmul (z_d u) (z_d u)))
      in Vector3_d (ddiv (x_d u) l) (ddiv (y_d u) l) (ddiv (z_d u) l))"

record Ray_d =
  origin_d :: Vector3_d
  direction_d :: Vector3_d

definition mk_Ray_d :: "Vector3_d \<Rightarrow> Vector3_d \<Rightarrow> Ray_d" where
  "mk_Ray_d orig dir = \<lparr>origin_d = orig, direction_d = normalize_d dir\<rparr>"





subsection \<open>The discriminant of the intersection test\<close>


subsection \<open>Scenes and ranges\<close>






text \<open>Two numbers of the format: the square of the first underflows, that of the second overflows.\<close>

definition tiny :: real where
  "tiny = 9 * 2 powi (- 540)"

definition huge :: real where
  "huge = 2 powi 700"

text \<open>
  The unit roundoff of the format, and the directions whose normalization neither
  overflows nor underflows: finite components that are zero or between \<open>2 powi (- 250)\<close>
  and \<open>2 powi 250\<close> in magnitude, not all of them zero.
\<close>

definition unit_roundoff :: real where
  "unit_roundoff = 2 powi (- 53)"

fun safe_component :: "double \<Rightarrow> bool" where
  "safe_component (Finite v) = (v = 0 \<or> (2 powi (- 250) \<le> \<bar>v\<bar> \<and> \<bar>v\<bar> \<le> 2 powi 250))"
| "safe_component c = False"

definition safe_direction :: "Vector3_d \<Rightarrow> bool" where
  "safe_direction d =
     (safe_component (x_d d) \<and> safe_component (y_d d) \<and> safe_component (z_d d) \<and>
      d \<noteq> Vector3_d (Finite 0) (Finite 0) (Finite 0))"

section \<open>Vector arithmetic\<close>

lemma len_dot: "len u = sqrt (dot u u)"
  by (simp add: len_def dot_def)

lemma dot_self_pos: "u \<noteq> Vector3 0 0 0 \<Longrightarrow> 0 < dot u u"
proof (cases u)
  case (Vector3 a b c)
  assume "u \<noteq> Vector3 0 0 0"
  with Vector3 have "a \<noteq> 0 \<or> b \<noteq> 0 \<or> c \<noteq> 0" by simp
  then have "a * a + b * b + c * c \<noteq> 0"
    by (simp add: add_nonneg_eq_0_iff)
  moreover have "0 \<le> a * a + b * b + c * c" by simp
  ultimately have "0 < a * a + b * b + c * c" by linarith
  with Vector3 show ?thesis by (simp add: dot_def)
qed

lemma normalize_vec_eq: "normalize_vec u = vmul u (1 / sqrt (dot u u))"
  by (simp add: normalize_vec_def vmul_def dot_def Let_def)

lemma dot_vmul: "dot (vmul u s) (vmul v t) = s * t * dot u v"
  by (simp add: dot_def vmul_def algebra_simps)

lemma dot_normalize_vec:
  assumes "u \<noteq> Vector3 0 0 0"
  shows "dot (normalize_vec u) (normalize_vec u) = 1"
proof -
  have q: "0 < dot u u" using assms by (rule dot_self_pos)
  have "dot (normalize_vec u) (normalize_vec u) =
      (1 / sqrt (dot u u)) * (1 / sqrt (dot u u)) * dot u u"
    by (simp only: normalize_vec_eq dot_vmul)
  also have "\<dots> = dot u u / (sqrt (dot u u) * sqrt (dot u u))" by simp
  also have "\<dots> = 1" using q by simp
  finally show ?thesis .
qed

lemma point_on_ray:
  "dot (vsub (vadd p (vmul d t)) c) (vsub (vadd p (vmul d t)) c) =
     dot d d * t\<^sup>2 + 2 * dot (vsub p c) d * t + dot (vsub p c) (vsub p c)"
  by (simp add: dot_def vsub_def vadd_def vmul_def power2_eq_square algebra_simps)

section \<open>Rounding\<close>

text \<open>
  Numbers of the format round to themselves; away from the subnormal range the relative
  error of a rounding is at most the unit roundoff.
\<close>

lemma powi_less_cancel:
  fixes a b :: int
  assumes "(2::real) powi a < 2 powi b"
  shows "a < b"
proof (rule ccontr)
  assume "\<not> a < b"
  then have "(2::real) powi b \<le> 2 powi a" by (intro power_int_increasing) simp_all
  with assms show False by linarith
qed

lemma floor_log2_eq:
  assumes "0 < x" "2 powi k \<le> x" "x < 2 powi (k + 1)"
  shows "\<lfloor>log 2 x\<rfloor> = k"
proof -
  have "(2::real) powr of_int k = 2 powi k"
    by (simp add: powr_real_of_int')
  moreover have "(2::real) powr of_int (k + 1) = 2 powi (k + 1)"
    by (rule powr_real_of_int') simp_all
  then have "(2::real) powr (of_int k + 1) = 2 powi (k + 1)" by simp
  ultimately have "2 powr (of_int k) \<le> x \<and> x < 2 powr (of_int k + 1)"
    using assms by simp
  then show ?thesis using assms(1) by (simp add: floor_log_eq_powr_iff)
qed

lemma round_even_of_int [simp]: "round_even (of_int n) = n"
  by (simp add: round_even_def)

lemma round_even_near:
  assumes "\<bar>y - of_int n\<bar> < 1 / 2"
  shows "round_even y = n"
proof -
  have "\<lfloor>y\<rfloor> = n \<or> \<lfloor>y\<rfloor> = n - 1" using assms by linarith
  then show ?thesis
  proof
    assume f: "\<lfloor>y\<rfloor> = n"
    then have "y - of_int \<lfloor>y\<rfloor> < 1 / 2" using assms by linarith
    then show ?thesis by (simp add: round_even_def f)
  next
    assume f: "\<lfloor>y\<rfloor> = n - 1"
    then have "1 / 2 < y - of_int \<lfloor>y\<rfloor>" using assms by linarith
    then show ?thesis by (simp add: round_even_def f)
  qed
qed

lemma round_even_error: "\<bar>of_int (round_even y) - y\<bar> \<le> 1 / 2"
  unfolding round_even_def by (auto simp: abs_le_iff)

lemma rd_zero [simp]: "rd 0 = 0"
  by (simp add: rd_def round_even_def)

lemma ulp_exponent_bin:
  assumes "2 powi k \<le> \<bar>x\<bar>" "\<bar>x\<bar> < 2 powi (k + 1)"
  shows "ulp_exponent x = max (k - 52) (- 1074)"
proof -
  have "(0::real) < 2 powi k" by simp
  then have "0 < \<bar>x\<bar>" using assms(1) by linarith
  then have "\<lfloor>log 2 \<bar>x\<bar>\<rfloor> = k" using assms by (rule floor_log2_eq)
  then show ?thesis by (simp add: ulp_exponent_def)
qed

lemma rd_near:
  assumes "2 powi k \<le> \<bar>x\<bar>" "\<bar>x\<bar> < 2 powi (k + 1)" "e = max (k - 52) (- 1074)"
    and "\<bar>x / 2 powi e - of_int n\<bar> < 1 / 2"
  shows "rd x = of_int n * 2 powi e"
  using assms by (simp add: rd_def ulp_exponent_bin round_even_near)


lemma bin_exists:
  assumes "x \<noteq> 0"
  shows "2 powi \<lfloor>log 2 \<bar>x\<bar>\<rfloor> \<le> \<bar>x\<bar> \<and> \<bar>x\<bar> < 2 powi (\<lfloor>log 2 \<bar>x\<bar>\<rfloor> + 1)"
proof -
  have p: "0 < \<bar>x\<bar>" using assms by simp
  have "(2::real) powr of_int \<lfloor>log 2 \<bar>x\<bar>\<rfloor> \<le> \<bar>x\<bar> \<and>
        \<bar>x\<bar> < 2 powr (of_int \<lfloor>log 2 \<bar>x\<bar>\<rfloor> + 1)"
    using floor_log_eq_powr_iff [OF p, of 2 "\<lfloor>log 2 \<bar>x\<bar>\<rfloor>"] by simp
  moreover have "(2::real) powr of_int \<lfloor>log 2 \<bar>x\<bar>\<rfloor> = 2 powi \<lfloor>log 2 \<bar>x\<bar>\<rfloor>"
    by (simp add: powr_real_of_int')
  moreover have "(2::real) powr of_int (\<lfloor>log 2 \<bar>x\<bar>\<rfloor> + 1) = 2 powi (\<lfloor>log 2 \<bar>x\<bar>\<rfloor> + 1)"
    by (rule powr_real_of_int') simp_all
  then have "(2::real) powr (of_int \<lfloor>log 2 \<bar>x\<bar>\<rfloor> + 1) = 2 powi (\<lfloor>log 2 \<bar>x\<bar>\<rfloor> + 1)"
    by simp
  ultimately show ?thesis by simp
qed

lemma rd_exact:
  assumes x: "x = of_int m * 2 powi k" and m: "\<bar>m\<bar> < 2 ^ 53" and k: "- 1074 \<le> k"
  shows "rd x = x"
proof (cases "m = 0")
  case True
  then show ?thesis using x by simp
next
  case False
  then have nz: "x \<noteq> 0" using x by simp
  let ?l = "\<lfloor>log 2 \<bar>x\<bar>\<rfloor>"
  let ?e = "ulp_exponent x"
  have "\<bar>x\<bar> = of_int \<bar>m\<bar> * 2 powi k" using x by (simp add: abs_mult)
  also have "\<dots> < 2 ^ 53 * 2 powi k"
    using m by (intro mult_strict_right_mono) (simp_all add: of_int_less_iff [symmetric] del: of_int_less_iff)
  also have "\<dots> = 2 powi (k + 53)" by (simp add: power_int_add)
  finally have up: "\<bar>x\<bar> < 2 powi (k + 53)" .
  have "2 powi ?l \<le> \<bar>x\<bar>" using bin_exists [OF nz] by simp
  with up have "(2::real) powi ?l < 2 powi (k + 53)" by linarith
  then have "?l < k + 53" by (rule powi_less_cancel)
  then have e: "?e \<le> k" using k by (simp add: ulp_exponent_def)
  have "x / 2 powi ?e = of_int m * 2 powi (k - ?e)"
    using x by (simp add: power_int_diff)
  also have "\<dots> = of_int m * 2 ^ nat (k - ?e)"
    using e by (simp add: power_int_nonneg_exp)
  also have "\<dots> = of_int (m * 2 ^ nat (k - ?e))" by simp
  finally have "round_even (x / 2 powi ?e) = m * 2 ^ nat (k - ?e)"
    by (simp only: round_even_of_int)
  then have "rd x = of_int (m * 2 ^ nat (k - ?e)) * 2 powi ?e"
    by (simp add: rd_def)
  also have "\<dots> = of_int m * (2 powi (k - ?e) * 2 powi ?e)"
    using e by (simp add: power_int_nonneg_exp)
  also have "2 powi (k - ?e) * 2 powi ?e = (2::real) powi k"
    by (simp flip: power_int_add)
  finally show ?thesis using x by simp
qed

lemma abs_scale:
  fixes n p x :: real
  assumes "0 < p"
  shows "\<bar>n * p - x\<bar> = \<bar>n - x / p\<bar> * p"
proof -
  have "n * p - x = (n - x / p) * p" using assms by (simp add: field_simps)
  then show ?thesis using assms by (simp add: abs_mult)
qed

lemma rd_error:
  assumes "2 powi (- 1022) \<le> \<bar>x\<bar>"
  shows "\<bar>rd x - x\<bar> \<le> 2 powi (- 53) * \<bar>x\<bar>"
proof -
  have "(0::real) < 2 powi (- 1022)" by simp
  then have nz: "x \<noteq> 0" using assms by linarith
  let ?l = "\<lfloor>log 2 \<bar>x\<bar>\<rfloor>"
  let ?e = "ulp_exponent x"
  have b: "2 powi ?l \<le> \<bar>x\<bar>" "\<bar>x\<bar> < 2 powi (?l + 1)" using bin_exists [OF nz] by simp_all
  have "(2::real) powi (- 1022) < 2 powi (?l + 1)" using assms b(2) by linarith
  then have "- 1022 < ?l + 1" by (rule powi_less_cancel)
  then have "- 1074 \<le> ?l - 52" by linarith
  then have e: "?e = ?l - 52" unfolding ulp_exponent_def by (rule max_absorb1)
  have pos: "(0::real) < 2 powi ?e" by simp
  have "\<bar>rd x - x\<bar> = \<bar>of_int (round_even (x / 2 powi ?e)) - x / 2 powi ?e\<bar> * 2 powi ?e"
    unfolding rd_def using pos by (rule abs_scale)
  also have "\<dots> \<le> 1 / 2 * 2 powi ?e"
    using round_even_error pos by (intro mult_right_mono) simp_all
  also have "\<dots> = 2 powi (- 53) * 2 powi ?l"
    by (simp add: e power_int_diff power_int_minus)
  also have "\<dots> \<le> 2 powi (- 53) * \<bar>x\<bar>"
    using b(1) by (intro mult_left_mono) simp_all
  finally show ?thesis .
qed

lemma max_double_bound: "max_double < 2 ^ 1024" "2 ^ 1023 < max_double"
  by (simp_all add: max_double_def)

lemma to_double_exact:
  assumes x: "x = of_int m * 2 powi k" and m: "\<bar>m\<bar> < 2 ^ 53" and k: "- 1074 \<le> k" "k \<le> 971"
  shows "to_double x = Finite x"
proof -
  have r: "rd x = x" using x m k(1) by (rule rd_exact)
  have "\<bar>m\<bar> \<le> 2 ^ 53 - 1" using m by simp
  then have "real_of_int \<bar>m\<bar> \<le> real_of_int (2 ^ 53 - 1)"
    by (simp only: of_int_le_iff)
  then have a: "real_of_int \<bar>m\<bar> \<le> 2 ^ 53 - 1" by simp
  have b: "(2::real) powi k \<le> 2 powi 971"
    using k(2) by (intro power_int_increasing) simp_all
  have "\<bar>x\<bar> = real_of_int \<bar>m\<bar> * 2 powi k" using x by (simp add: abs_mult)
  also have "\<dots> \<le> (2 ^ 53 - 1) * 2 powi 971"
    using a b by (intro mult_mono) simp_all
  also have "\<dots> = max_double" unfolding max_double_def by simp
  finally have "\<not> max_double < \<bar>rd x\<bar>" unfolding r by simp
  then show ?thesis unfolding to_double_def r by simp
qed

lemma to_double_int: "\<bar>n\<bar> < 2 ^ 53 \<Longrightarrow> to_double (of_int n) = Finite (of_int n)"
  using to_double_exact [of "of_int n" n 0] by simp

lemma to_double_numeral [simp]:
  "numeral w < (2 ^ 53 :: int) \<Longrightarrow> to_double (numeral w) = Finite (numeral w)"
  "numeral w < (2 ^ 53 :: int) \<Longrightarrow> to_double (- numeral w) = Finite (- numeral w)"
  "to_double 0 = Finite 0" "to_double 1 = Finite 1" "to_double (- 1) = Finite (- 1)"
  using to_double_int [of "numeral w"] to_double_int [of "- numeral w"]
    to_double_int [of 0] to_double_int [of 1] to_double_int [of "- 1"]
  by simp_all



lemma sqrt_square_eq: "0 \<le> r \<Longrightarrow> r * r = a \<Longrightarrow> sqrt a = r"
  by (metis abs_of_nonneg real_sqrt_abs2)


lemma tiny_square: "to_double (9 * 2 powi (- 540) * (9 * 2 powi (- 540))) = Finite (2 powi (- 1074))"
proof -
  let ?x = "9 * 2 powi (- 540) * (9 * 2 powi (- 540)) :: real"
  have v: "?x = 81 * 2 powi (- 1080)"
    by (simp add: power_int_minus field_simps flip: power_add)
  have q: "?x / 2 powi (- 1074) = 81 / 64"
    unfolding v by (simp add: power_int_minus)
  have "rd ?x = of_int 1 * 2 powi (- 1074)"
  proof (rule rd_near [where k = "- 1074"])
    show "2 powi (- 1074) \<le> \<bar>?x\<bar>" unfolding v by (simp add: power_int_minus)
    show "\<bar>?x\<bar> < 2 powi (- 1074 + 1)" unfolding v by (simp add: power_int_minus)
    show "- 1074 = max (- 1074 - 52) (- 1074 :: int)" by simp
    show "\<bar>?x / 2 powi (- 1074) - of_int 1\<bar> < 1 / 2" unfolding q by simp
  qed
  then have r: "rd ?x = 2 powi (- 1074)" by simp
  have "(2::real) powi (- 1074) \<le> 1" by (simp add: power_int_minus field_simps)
  then have "\<not> max_double < \<bar>rd ?x\<bar>"
    unfolding r using max_double_bound(2) by simp
  then show ?thesis unfolding to_double_def r by simp
qed

subsection \<open>The two directions and the far ray, evaluated\<close>


lemma to_double_pow2:
  "- 1074 \<le> k \<Longrightarrow> k \<le> 971 \<Longrightarrow> to_double (2 powi k) = Finite (2 powi k)"
  using to_double_exact [of "2 powi k" 1 k] by simp

lemma to_double_0: "to_double 0 = Finite 0"
  by simp

lemma tiny_double: "to_double tiny = Finite tiny" "tiny \<noteq> 0"
  using to_double_exact [of tiny 9 "- 540"] by (simp_all add: tiny_def)

lemma tiny_sq: "dmul (Finite tiny) (Finite tiny) = Finite (2 powi (- 1074))"
  unfolding tiny_def by (simp only: dmul.simps tiny_square)

lemma zero_ops:
  "dmul (Finite 0) (Finite 0) = Finite 0" "dadd (Finite a) (Finite 0) = to_double a"
  by simp_all

lemma tiny_length:
  "dsqrt (dadd (dadd (dmul (Finite tiny) (Finite tiny)) (dmul (Finite 0) (Finite 0)))
     (dmul (Finite 0) (Finite 0))) = Finite (2 powi (- 537))"
proof -
  have p: "(2::real) powi (- 537) * 2 powi (- 537) = 2 powi (- 1074)"
    by (simp flip: power_int_add)
  have s: "sqrt (2 powi (- 1074)) = 2 powi (- 537)"
    by (rule sqrt_square_eq [OF _ p]) simp
  have e: "rd (2 powi (- 537)) = 2 powi (- 537)"
    using rd_exact [of "2 powi (- 537)" 1 "- 537"] by simp
  have t: "to_double (2 powi (- 1074)) = Finite (2 powi (- 1074))"
    by (rule to_double_pow2) simp_all
  have n: "\<not> (2::real) powi (- 1074) < 0"
    by (simp add: not_less del: power_int_numeral_neg_numeral)
  show ?thesis
    by (simp only: tiny_sq zero_ops t dsqrt.simps n if_False s e)
qed

lemma tiny_quotient: "ddiv (Finite tiny) (Finite (2 powi (- 537))) = Finite (9 / 8)"
proof -
  have "(2::real) powi (- 540) = 2 powi (- 3) * 2 powi (- 537)"
    by (simp flip: power_int_add)
  then have "tiny / 2 powi (- 537) = 9 * 2 powi (- 3)"
    by (simp add: tiny_def del: power_int_numeral_neg_numeral)
  also have "\<dots> = (9 / 8 :: real)" by simp
  finally have q: "tiny / 2 powi (- 537) = 9 / 8" .
  have t: "to_double (9 / 8) = Finite (9 / 8)"
    using to_double_exact [of "9 / 8" 9 "- 3"] by simp
  have n: "(2::real) powi (- 537) \<noteq> 0" by (simp del: power_int_numeral_neg_numeral)
  show ?thesis by (simp only: ddiv.simps n if_False q t)
qed

lemma zero_quotient: "ddiv (Finite 0) (Finite (2 powi (- 537))) = Finite 0"
proof -
  have n: "(2::real) powi (- 537) \<noteq> 0" by (simp del: power_int_numeral_neg_numeral)
  show ?thesis by (simp only: ddiv.simps n if_False div_0 to_double_0)
qed

lemma normalize_tiny:
  "normalize_d (Vector3_d (Finite tiny) (Finite 0) (Finite 0)) =
     Vector3_d (Finite (9 / 8)) (Finite 0) (Finite 0)"
  by (simp only: normalize_d_def Let_def Vector3_d.sel tiny_length tiny_quotient zero_quotient)

lemma len_stretched: "len_d (Vector3_d (Finite (9 / 8)) (Finite 0) (Finite 0)) = Finite (9 / 8)"
proof -
  have a: "to_double (81 / 64) = Finite (81 / 64)"
    using to_double_exact [of "81 / 64" 81 "- 6"] by simp
  have s: "sqrt (81 / 64) = 9 / 8" by (rule sqrt_square_eq) simp_all
  have e: "rd (9 / 8) = 9 / 8" using rd_exact [of "9 / 8" 9 "- 3"] by simp
  show ?thesis by (simp add: len_d_def a s e)
qed



lemma huge_sq: "dmul (Finite huge) (Finite huge) = PInf"
proof -
  have v: "huge * huge = 2 powi 1400" by (simp add: huge_def flip: power_add)
  have r: "rd (2 powi 1400) = 2 powi 1400"
    using rd_exact [of "2 powi 1400" 1 1400] by simp
  have "(2::real) ^ 1024 < 2 powi 1400" by simp
  then have "max_double < \<bar>rd (2 powi 1400)\<bar>"
    unfolding r using max_double_bound(1) by simp
  moreover have "(0::real) < 2 powi 1400" by simp
  ultimately show ?thesis by (simp only: dmul.simps v to_double_def if_True)
qed

lemma normalize_huge:
  "normalize_d (Vector3_d (Finite huge) (Finite 0) (Finite 0)) =
     Vector3_d (Finite 0) (Finite 0) (Finite 0)"
  by (simp only: normalize_d_def Let_def Vector3_d.sel huge_sq zero_ops dadd.simps dsqrt.simps
      ddiv.simps)

lemma len_zero: "len_d (Vector3_d (Finite 0) (Finite 0) (Finite 0)) = Finite 0"
  by (simp add: len_d_def)





lemma sqrt_25: "sqrt 25 = 5"
  by (rule sqrt_square_eq) simp_all

lemma rd_small [simp]: "rd 1 = 1" "rd 0 = 0" "rd 2 = 2" "rd 5 = 5"
  using rd_exact [of 1 1 0] rd_exact [of 2 2 0] rd_exact [of 5 5 0] by simp_all





subsection \<open>Error bounds for the length and the normalization of a vector\<close>


lemma u_bounds: "0 < unit_roundoff" "unit_roundoff \<le> 1"
  by (simp_all add: unit_roundoff_def)

lemma round_pos:
  assumes "0 \<le> v" "v = 0 \<or> 2 powi (- 1022) \<le> v" "v \<le> 2 powi 1022"
  shows "to_double v = Finite (rd v) \<and> (1 - unit_roundoff) * v \<le> rd v \<and>
         rd v \<le> (1 + unit_roundoff) * v"
proof (cases "v = 0")
  case True
  then show ?thesis by simp
next
  case False
  then have n: "2 powi (- 1022) \<le> \<bar>v\<bar>" using assms by simp
  have "\<bar>rd v - v\<bar> \<le> 2 powi (- 53) * \<bar>v\<bar>" using n by (rule rd_error)
  then have e: "\<bar>rd v - v\<bar> \<le> unit_roundoff * v"
    using assms(1) by (simp only: unit_roundoff_def abs_of_nonneg)
  then have b: "(1 - unit_roundoff) * v \<le> rd v" "rd v \<le> (1 + unit_roundoff) * v"
    by (simp_all add: algebra_simps abs_le_iff)
  have uv: "0 \<le> unit_roundoff * v" using assms(1) u_bounds(1) by simp
  have "unit_roundoff * v \<le> 1 * v"
    using u_bounds(2) assms(1) by (rule mult_right_mono)
  then have uv1: "unit_roundoff * v \<le> v" by simp
  have "0 \<le> rd v" using b(1) uv1 assms(1) by (simp add: algebra_simps)
  moreover have "rd v \<le> 2 * v" using b(2) uv1 by (simp add: algebra_simps)
  ultimately have "\<bar>rd v\<bar> \<le> 2 * 2 powi 1022" using assms(3) by simp
  also have "\<dots> = 2 ^ 1023" by simp
  finally have "\<not> max_double < \<bar>rd v\<bar>" using max_double_bound(2) by simp
  then show ?thesis using b by (simp add: to_double_def)
qed


lemma u_half: "1 / 2 \<le> 1 - unit_roundoff" "1 + unit_roundoff \<le> 2"
  by (simp_all add: unit_roundoff_def)

lemma round_range:
  assumes z: "v = 0 \<or> 2 powi a \<le> \<bar>v\<bar>" and hi: "\<bar>v\<bar> \<le> 2 powi b"
    and a: "- 1022 \<le> a" and b: "b \<le> 1022"
  shows "to_double v = Finite (rd v) \<and>
         (1 - unit_roundoff) * \<bar>v\<bar> \<le> \<bar>rd v\<bar> \<and> \<bar>rd v\<bar> \<le> (1 + unit_roundoff) * \<bar>v\<bar> \<and>
         (v = 0 \<longrightarrow> rd v = 0) \<and> (v \<noteq> 0 \<longrightarrow> 2 powi (a - 1) \<le> \<bar>rd v\<bar>) \<and>
         \<bar>rd v\<bar> \<le> 2 powi (b + 1) \<and> (0 \<le> v \<longrightarrow> 0 \<le> rd v)"
proof (cases "v = 0")
  case True
  then show ?thesis by simp
next
  case False
  have pa: "(2::real) powi (- 1022) \<le> 2 powi a"
    using a by (intro power_int_increasing) simp_all
  have pb: "(2::real) powi b \<le> 2 powi 1022"
    using b by (intro power_int_increasing) simp_all
  have lo: "2 powi a \<le> \<bar>v\<bar>" using z False by simp
  then have n: "2 powi (- 1022) \<le> \<bar>v\<bar>" using pa by linarith
  have "\<bar>rd v - v\<bar> \<le> 2 powi (- 53) * \<bar>v\<bar>" using n by (rule rd_error)
  then have e: "\<bar>rd v - v\<bar> \<le> unit_roundoff * \<bar>v\<bar>"
    by (simp only: unit_roundoff_def)
  have b1: "(1 - unit_roundoff) * \<bar>v\<bar> \<le> \<bar>rd v\<bar>"
    and b2: "\<bar>rd v\<bar> \<le> (1 + unit_roundoff) * \<bar>v\<bar>"
    using e by (simp_all add: algebra_simps)
  have "1 / 2 * \<bar>v\<bar> \<le> (1 - unit_roundoff) * \<bar>v\<bar>"
    using u_half(1) by (rule mult_right_mono) simp
  then have h1: "1 / 2 * \<bar>v\<bar> \<le> \<bar>rd v\<bar>" using b1 by linarith
  have "(1 + unit_roundoff) * \<bar>v\<bar> \<le> 2 * \<bar>v\<bar>"
    using u_half(2) by (rule mult_right_mono) simp
  then have h2: "\<bar>rd v\<bar> \<le> 2 * \<bar>v\<bar>" using b2 by linarith
  have "(2::real) powi (a - 1) = 1 / 2 * 2 powi a"
    by (simp add: power_int_diff)
  then have l: "2 powi (a - 1) \<le> \<bar>rd v\<bar>" using h1 lo by linarith
  have "(2::real) powi (b + 1) = 2 * 2 powi b"
    by (simp add: power_int_add)
  then have g: "\<bar>rd v\<bar> \<le> 2 powi (b + 1)" using h2 hi by linarith
  have "\<bar>rd v\<bar> \<le> 2 * 2 powi 1022" using h2 hi pb by linarith
  also have "\<dots> = 2 ^ 1023" by simp
  finally have "\<not> max_double < \<bar>rd v\<bar>" using max_double_bound(2) by simp
  then have f: "to_double v = Finite (rd v)" by (simp add: to_double_def)
  have s: "0 \<le> rd v" if "0 \<le> v"
  proof -
    have "unit_roundoff * \<bar>v\<bar> \<le> 1 * \<bar>v\<bar>"
      using u_bounds(2) by (rule mult_right_mono) simp
    then show ?thesis using e that by (simp add: abs_le_iff)
  qed
  from f b1 b2 l g s False show ?thesis by simp
qed


lemma sq_range:
  fixes v :: real
  assumes "v = 0 \<or> (2 powi k \<le> \<bar>v\<bar> \<and> \<bar>v\<bar> \<le> 2 powi m)"
  shows "0 \<le> v * v \<and> (v * v = 0 \<or> 2 powi (2 * k) \<le> \<bar>v * v\<bar>) \<and> \<bar>v * v\<bar> \<le> 2 powi (2 * m)"
proof (cases "v = 0")
  case True
  then show ?thesis by simp
next
  case False
  then have r: "2 powi k \<le> \<bar>v\<bar>" "\<bar>v\<bar> \<le> 2 powi m" using assms by simp_all
  have "(2::real) powi k * 2 powi k \<le> \<bar>v\<bar> * \<bar>v\<bar>"
    using r(1) by (intro mult_mono) simp_all
  moreover have "\<bar>v\<bar> * \<bar>v\<bar> \<le> 2 powi m * 2 powi m"
    using r(2) by (intro mult_mono) simp_all
  moreover have "(2::real) powi (2 * k) = 2 powi k * 2 powi k"
    "(2::real) powi (2 * m) = 2 powi m * 2 powi m"
    by (simp_all flip: power_int_add)
  ultimately show ?thesis by (simp add: abs_mult)
qed

lemma chain_lower:
  fixes al :: real
  assumes al: "0 \<le> al" "al \<le> 1" and nn: "0 \<le> a" "0 \<le> b" "0 \<le> c"
    and r: "al * a \<le> sa" "al * b \<le> sb" "al * c \<le> sc"
      "al * (sa + sb) \<le> s1" "al * (s1 + sc) \<le> s2"
  shows "al ^ 3 * (a + b + c) \<le> s2"
proof -
  have "al * (al * a + al * b) \<le> al * (sa + sb)"
    using r(1,2) al(1) by (intro mult_left_mono) simp_all
  then have 1: "al * (al * a + al * b) \<le> s1" using r(4) by linarith
  have "al * c \<le> 1 * c" using al(2) nn(3) by (rule mult_right_mono)
  then have "al * (al * c) \<le> al * c" using al(1) by (simp add: mult_left_mono)
  then have 2: "al * (al * c) \<le> sc" using r(3) by linarith
  have "al * (al * (al * a + al * b) + al * (al * c)) \<le> al * (s1 + sc)"
    using 1 2 al(1) by (intro mult_left_mono) simp_all
  then have "al * (al * (al * a + al * b) + al * (al * c)) \<le> s2" using r(5) by linarith
  moreover have "al * (al * (al * a + al * b) + al * (al * c)) = al ^ 3 * (a + b + c)"
    by (simp add: algebra_simps power3_eq_cube)
  ultimately show ?thesis by simp
qed

lemma chain_upper:
  fixes be :: real
  assumes be: "1 \<le> be" and nn: "0 \<le> a" "0 \<le> b" "0 \<le> c"
    and r: "sa \<le> be * a" "sb \<le> be * b" "sc \<le> be * c"
      "s1 \<le> be * (sa + sb)" "s2 \<le> be * (s1 + sc)"
  shows "s2 \<le> be ^ 3 * (a + b + c)"
proof -
  have b0: "0 \<le> be" using be by simp
  have "be * (sa + sb) \<le> be * (be * a + be * b)"
    using r(1,2) b0 by (intro mult_left_mono) simp_all
  then have 1: "s1 \<le> be * (be * a + be * b)" using r(4) by linarith
  have "0 \<le> be * c" using b0 nn(3) by simp
  then have "1 * (be * c) \<le> be * (be * c)" using be by (intro mult_right_mono) simp_all
  then have 2: "sc \<le> be * (be * c)" using r(3) by linarith
  have "be * (s1 + sc) \<le> be * (be * (be * a + be * b) + be * (be * c))"
    using 1 2 b0 by (intro mult_left_mono) simp_all
  then have "s2 \<le> be * (be * (be * a + be * b) + be * (be * c))" using r(5) by linarith
  moreover have "be * (be * (be * a + be * b) + be * (be * c)) = be ^ 3 * (a + b + c)"
    by (simp add: algebra_simps power3_eq_cube)
  ultimately show ?thesis by simp
qed

lemma round_nonneg:
  fixes v :: real
  assumes nn: "0 \<le> v" and lo: "v = 0 \<or> 2 powi a \<le> v" and hi: "v \<le> 2 powi b"
    and a: "- 1022 \<le> a" and b: "b \<le> 1022" and a': "a' = a - 1" and b': "b' = b + 1"
  shows "to_double v = Finite (rd v)"
    and "(1 - unit_roundoff) * v \<le> rd v" and "rd v \<le> (1 + unit_roundoff) * v"
    and "0 \<le> rd v" and "rd v = 0 \<or> 2 powi a' \<le> rd v" and "rd v \<le> 2 powi b'"
proof -
  have av: "\<bar>v\<bar> = v" using nn by simp
  have lo': "v = 0 \<or> 2 powi a \<le> \<bar>v\<bar>" and hi': "\<bar>v\<bar> \<le> 2 powi b"
    using lo hi by (simp_all only: av)
  note r = round_range [OF lo' hi' a b]
  from r nn have p: "0 \<le> rd v" by blast
  then have ar: "\<bar>rd v\<bar> = rd v" by simp
  from r show "to_double v = Finite (rd v)" by blast
  from r have "(1 - unit_roundoff) * \<bar>v\<bar> \<le> \<bar>rd v\<bar>" by blast
  then show "(1 - unit_roundoff) * v \<le> rd v" by (simp only: av ar)
  from r have "\<bar>rd v\<bar> \<le> (1 + unit_roundoff) * \<bar>v\<bar>" by blast
  then show "rd v \<le> (1 + unit_roundoff) * v" by (simp only: av ar)
  show "0 \<le> rd v" by (rule p)
  from r have "(v = 0 \<longrightarrow> rd v = 0) \<and> (v \<noteq> 0 \<longrightarrow> 2 powi (a - 1) \<le> \<bar>rd v\<bar>)" by blast
  then show "rd v = 0 \<or> 2 powi a' \<le> rd v" unfolding a' ar by blast
  from r have "\<bar>rd v\<bar> \<le> 2 powi (b + 1)" by blast
  then show "rd v \<le> 2 powi b'" by (simp only: b' ar)
qed

lemma sumsq_bounds:
  fixes x y z :: real
  assumes rx: "x = 0 \<or> (2 powi (- 505) \<le> \<bar>x\<bar> \<and> \<bar>x\<bar> \<le> 2 powi 250)"
    and ry: "y = 0 \<or> (2 powi (- 505) \<le> \<bar>y\<bar> \<and> \<bar>y\<bar> \<le> 2 powi 250)"
    and rz: "z = 0 \<or> (2 powi (- 505) \<le> \<bar>z\<bar> \<and> \<bar>z\<bar> \<le> 2 powi 250)"
  shows "\<exists>S. dadd (dadd (dmul (Finite x) (Finite x)) (dmul (Finite y) (Finite y)))
               (dmul (Finite z) (Finite z)) = Finite S \<and>
             (1 - unit_roundoff) ^ 3 * (x * x + y * y + z * z) \<le> S \<and>
             S \<le> (1 + unit_roundoff) ^ 3 * (x * x + y * y + z * z) \<and>
             0 \<le> S \<and> (S = 0 \<or> 2 powi (- 1013) \<le> S) \<and> S \<le> 2 powi 505"
proof -
  let ?al = "1 - unit_roundoff" and ?be = "1 + unit_roundoff"
  have sq: "0 \<le> v * v \<and> (v * v = 0 \<or> 2 powi (- 1010) \<le> v * v) \<and> v * v \<le> 2 powi 500"
    if "v = 0 \<or> (2 powi (- 505) \<le> \<bar>v\<bar> \<and> \<bar>v\<bar> \<le> 2 powi 250)" for v :: real
  proof -
    from sq_range [OF that] have "0 \<le> v * v" "v * v = 0 \<or> 2 powi (2 * (- 505)) \<le> \<bar>v * v\<bar>"
      "\<bar>v * v\<bar> \<le> 2 powi (2 * 250)" by blast+
    moreover have "(2 * (- 505) :: int) = - 1010" "(2 * 250 :: int) = 500" by simp_all
    ultimately show ?thesis by (simp only: abs_of_nonneg)
  qed
  let ?a = "x * x" and ?b = "y * y" and ?c = "z * z"
  from sq [OF rx] have a: "0 \<le> ?a" "?a = 0 \<or> 2 powi (- 1010) \<le> ?a" "?a \<le> 2 powi 500" by blast+
  from sq [OF ry] have b: "0 \<le> ?b" "?b = 0 \<or> 2 powi (- 1010) \<le> ?b" "?b \<le> 2 powi 500" by blast+
  from sq [OF rz] have c: "0 \<le> ?c" "?c = 0 \<or> 2 powi (- 1010) \<le> ?c" "?c \<le> 2 powi 500" by blast+
  note ra = round_nonneg [OF a, where a' = "- 1011" and b' = 501]
  note rb = round_nonneg [OF b, where a' = "- 1011" and b' = 501]
  note rc = round_nonneg [OF c, where a' = "- 1011" and b' = 501]
  let ?sa = "rd ?a" and ?sb = "rd ?b" and ?sc = "rd ?c"
  have sa: "to_double ?a = Finite ?sa" "?al * ?a \<le> ?sa" "?sa \<le> ?be * ?a" "0 \<le> ?sa"
    "?sa = 0 \<or> 2 powi (- 1011) \<le> ?sa" "?sa \<le> 2 powi 501"
    by (rule ra; simp)+
  have sb: "to_double ?b = Finite ?sb" "?al * ?b \<le> ?sb" "?sb \<le> ?be * ?b" "0 \<le> ?sb"
    "?sb = 0 \<or> 2 powi (- 1011) \<le> ?sb" "?sb \<le> 2 powi 501"
    by (rule rb; simp)+
  have sc: "to_double ?c = Finite ?sc" "?al * ?c \<le> ?sc" "?sc \<le> ?be * ?c" "0 \<le> ?sc"
    "?sc = 0 \<or> 2 powi (- 1011) \<le> ?sc" "?sc \<le> 2 powi 501"
    by (rule rc; simp)+
  let ?p1 = "?sa + ?sb"
  have p1: "0 \<le> ?p1" "?p1 = 0 \<or> 2 powi (- 1011) \<le> ?p1" "?p1 \<le> 2 powi 502"
  proof -
    show "0 \<le> ?p1" using sa(4) sb(4) by simp
    show "?p1 = 0 \<or> 2 powi (- 1011) \<le> ?p1" using sa(4,5) sb(4,5) by linarith
    have "(2::real) powi 502 = 2 powi 501 + 2 powi 501" by simp
    then show "?p1 \<le> 2 powi 502" using sa(6) sb(6) by linarith
  qed
  note r1 = round_nonneg [OF p1, where a' = "- 1012" and b' = 503]
  let ?s1 = "rd ?p1"
  have s1: "to_double ?p1 = Finite ?s1" "?al * ?p1 \<le> ?s1" "?s1 \<le> ?be * ?p1" "0 \<le> ?s1"
    "?s1 = 0 \<or> 2 powi (- 1012) \<le> ?s1" "?s1 \<le> 2 powi 503"
    by (rule r1; simp)+
  let ?p2 = "?s1 + ?sc"
  have p2: "0 \<le> ?p2" "?p2 = 0 \<or> 2 powi (- 1012) \<le> ?p2" "?p2 \<le> 2 powi 504"
  proof -
    show "0 \<le> ?p2" using s1(4) sc(4) by simp
    have "(2::real) powi (- 1012) \<le> 2 powi (- 1011)"
      by (intro power_int_increasing) simp_all
    then show "?p2 = 0 \<or> 2 powi (- 1012) \<le> ?p2" using s1(4,5) sc(4,5) by linarith
    have "(2::real) powi 501 \<le> 2 powi 503" by (intro power_int_increasing) simp_all
    moreover have "(2::real) powi 504 = 2 powi 503 + 2 powi 503" by simp
    ultimately show "?p2 \<le> 2 powi 504" using s1(6) sc(6) by linarith
  qed
  note r2 = round_nonneg [OF p2, where a' = "- 1013" and b' = 505]
  let ?s2 = "rd ?p2"
  have s2: "to_double ?p2 = Finite ?s2" "?al * ?p2 \<le> ?s2" "?s2 \<le> ?be * ?p2" "0 \<le> ?s2"
    "?s2 = 0 \<or> 2 powi (- 1013) \<le> ?s2" "?s2 \<le> 2 powi 505"
    by (rule r2; simp)+
  have ev: "dadd (dadd (dmul (Finite x) (Finite x)) (dmul (Finite y) (Finite y)))
      (dmul (Finite z) (Finite z)) = Finite ?s2"
    by (simp only: dmul.simps dadd.simps sa(1) sb(1) sc(1) s1(1) s2(1))
  have al: "0 \<le> ?al" "?al \<le> 1" and be: "1 \<le> ?be"
    using u_bounds by simp_all
  have lower: "?al ^ 3 * (?a + ?b + ?c) \<le> ?s2"
    using al a(1) b(1) c(1) sa(2) sb(2) sc(2) s1(2) s2(2) by (rule chain_lower)
  have upper: "?s2 \<le> ?be ^ 3 * (?a + ?b + ?c)"
    using be a(1) b(1) c(1) sa(3) sb(3) sc(3) s1(3) s2(3) by (rule chain_upper)
  from ev lower upper s2(4,5,6) show ?thesis by blast
qed

lemma len_bounds:
  fixes x y z :: real
  assumes rx: "x = 0 \<or> (2 powi (- 505) \<le> \<bar>x\<bar> \<and> \<bar>x\<bar> \<le> 2 powi 250)"
    and ry: "y = 0 \<or> (2 powi (- 505) \<le> \<bar>y\<bar> \<and> \<bar>y\<bar> \<le> 2 powi 250)"
    and rz: "z = 0 \<or> (2 powi (- 505) \<le> \<bar>z\<bar> \<and> \<bar>z\<bar> \<le> 2 powi 250)"
    and nz: "x \<noteq> 0 \<or> y \<noteq> 0 \<or> z \<noteq> 0"
  shows "\<exists>L. len_d (Vector3_d (Finite x) (Finite y) (Finite z)) = Finite L \<and>
             (1 - unit_roundoff) ^ 3 * sqrt (x * x + y * y + z * z) \<le> L \<and>
             L \<le> (1 + unit_roundoff) ^ 3 * sqrt (x * x + y * y + z * z) \<and>
             2 powi (- 508) \<le> L \<and> L \<le> 2 powi 254"
proof -
  let ?al = "1 - unit_roundoff" and ?be = "1 + unit_roundoff"
  let ?q = "x * x + y * y + z * z"
  have al: "0 < ?al" "?al \<le> 1" and be: "1 \<le> ?be"
    using u_bounds u_half by simp_all
  have xx: "0 \<le> x * x" "0 \<le> y * y" "0 \<le> z * z" by simp_all
  have "0 < x * x \<or> 0 < y * y \<or> 0 < z * z" using nz by (simp add: zero_less_mult_iff) linarith
  with xx have q: "0 < ?q" by linarith
  from sumsq_bounds [OF rx ry rz] obtain S where
    ev: "dadd (dadd (dmul (Finite x) (Finite x)) (dmul (Finite y) (Finite y)))
           (dmul (Finite z) (Finite z)) = Finite S"
    and lo: "?al ^ 3 * ?q \<le> S" and hi: "S \<le> ?be ^ 3 * ?q"
    and nn: "0 \<le> S" and rl: "S = 0 \<or> 2 powi (- 1013) \<le> S" and rh: "S \<le> 2 powi 505"
    by blast
  have "0 < ?al ^ 3 * ?q" using al q by simp
  with lo have Spos: "0 < S" by linarith
  with rl have rl': "2 powi (- 1013) \<le> S" by simp
  let ?r = "sqrt S"
  have r0: "0 \<le> ?r" using nn by simp
  have r1: "2 powi (- 507) \<le> ?r"
  proof (rule real_le_rsqrt)
    have "((2::real) powi (- 507))\<^sup>2 = 2 powi (- 507 + - 507)"
      unfolding power2_eq_square by (rule power_int_add [symmetric]) simp
    also have "\<dots> \<le> 2 powi (- 1013)" by (intro power_int_increasing) simp_all
    finally show "((2::real) powi (- 507))\<^sup>2 \<le> S" using rl' by linarith
  qed
  have r2: "?r \<le> 2 powi 253"
  proof (rule real_le_lsqrt)
    show "(0::real) \<le> 2 powi 253" by simp
    have "(2::real) powi 505 \<le> 2 powi (253 + 253)" by (intro power_int_increasing) simp_all
    also have "\<dots> = ((2::real) powi 253)\<^sup>2"
      unfolding power2_eq_square by (rule power_int_add) simp
    finally show "S \<le> ((2::real) powi 253)\<^sup>2" using rh by linarith
  qed
  have r1': "?r = 0 \<or> 2 powi (- 507) \<le> ?r" using r1 by blast
  note rr = round_nonneg [OF r0 r1' r2, where a' = "- 508" and b' = 254]
  let ?L = "rd ?r"
  have L: "?al * ?r \<le> ?L" "?L \<le> ?be * ?r" "?L = 0 \<or> 2 powi (- 508) \<le> ?L" "?L \<le> 2 powi 254"
    by (rule rr; simp)+
  have sq: "0 \<le> sqrt ?q" "(sqrt ?q)\<^sup>2 = ?q" using q by simp_all
  have low: "?al ^ 2 * sqrt ?q \<le> ?r"
  proof (rule real_le_rsqrt)
    have "(?al ^ 2 * sqrt ?q)\<^sup>2 = ?al ^ 4 * ?q"
      by (simp only: power_mult_distrib sq(2) power_mult [symmetric]) simp
    also have "\<dots> \<le> ?al ^ 3 * ?q"
    proof (rule mult_right_mono)
      show "?al ^ 4 \<le> ?al ^ 3" using al by (intro power_decreasing) simp_all
      show "0 \<le> ?q" using q by simp
    qed
    finally show "(?al ^ 2 * sqrt ?q)\<^sup>2 \<le> S" using lo by linarith
  qed
  have upp: "?r \<le> ?be ^ 2 * sqrt ?q"
  proof (rule real_le_lsqrt)
    show "0 \<le> ?be ^ 2 * sqrt ?q" using be sq(1) by simp
    have "?be ^ 3 * ?q \<le> ?be ^ 4 * ?q"
    proof (rule mult_right_mono)
      show "?be ^ 3 \<le> ?be ^ 4" using be by (intro power_increasing) simp_all
      show "0 \<le> ?q" using q by simp
    qed
    also have "\<dots> = (?be ^ 2 * sqrt ?q)\<^sup>2"
      by (simp only: power_mult_distrib sq(2) power_mult [symmetric]) simp
    finally show "S \<le> (?be ^ 2 * sqrt ?q)\<^sup>2" using hi by linarith
  qed
  have lowL: "?al ^ 3 * sqrt ?q \<le> ?L"
  proof -
    have "?al * (?al ^ 2 * sqrt ?q) \<le> ?al * ?r" using low al by (intro mult_left_mono) simp_all
    moreover have "?al * (?al ^ 2 * sqrt ?q) = ?al ^ 3 * sqrt ?q" by (simp add: power3_eq_cube power2_eq_square)
    ultimately show ?thesis using L(1) by linarith
  qed
  have uppL: "?L \<le> ?be ^ 3 * sqrt ?q"
  proof -
    have "?be * ?r \<le> ?be * (?be ^ 2 * sqrt ?q)" using upp be by (intro mult_left_mono) simp_all
    moreover have "?be * (?be ^ 2 * sqrt ?q) = ?be ^ 3 * sqrt ?q" by (simp add: power3_eq_cube power2_eq_square)
    ultimately show ?thesis using L(2) by linarith
  qed
  have "0 < ?al ^ 3 * sqrt ?q" using al q by simp
  with lowL have "?L \<noteq> 0" by linarith
  with L(3) have Llo: "2 powi (- 508) \<le> ?L" by blast
  have "len_d (Vector3_d (Finite x) (Finite y) (Finite z)) = Finite ?L"
    unfolding len_d_def Vector3_d.sel ev using nn by simp
  with lowL uppL Llo L(4) show ?thesis by blast
qed

lemma u_numeric:
  "(1 - 8 * unit_roundoff) * (1 + unit_roundoff) ^ 3 \<le> (1 - unit_roundoff) ^ 4"
  "(1 + unit_roundoff) ^ 4 \<le> (1 + 8 * unit_roundoff) * (1 - unit_roundoff) ^ 3"
  "1 \<le> (1 + 4 * unit_roundoff) * (1 - unit_roundoff) ^ 3"
  "(1 - 4 * unit_roundoff) * (1 + unit_roundoff) ^ 3 \<le> 1"
  "unit_roundoff * (1 + 4 * unit_roundoff) + 4 * unit_roundoff \<le> 8 * unit_roundoff"
  "8 * unit_roundoff = 2 powi (- 50)"
  by (simp_all add: unit_roundoff_def power_divide)

lemma normalize_d_len:
  "normalize_d u = Vector3_d (ddiv (x_d u) (len_d u)) (ddiv (y_d u) (len_d u)) (ddiv (z_d u) (len_d u))"
  by (simp add: normalize_d_def len_d_def Let_def)

lemma quot_bounds:
  fixes x L s :: real
  assumes rx: "x = 0 \<or> (2 powi (- 250) \<le> \<bar>x\<bar> \<and> \<bar>x\<bar> \<le> 2 powi 250)"
    and xs: "\<bar>x\<bar> \<le> s" and s: "0 < s"
    and L1: "(1 - unit_roundoff) ^ 3 * s \<le> L" and L2: "L \<le> (1 + unit_roundoff) ^ 3 * s"
    and L3: "L \<le> 2 powi 254"
  shows "\<exists>n. ddiv (Finite x) (Finite L) = Finite n \<and>
           (n = 0 \<or> (2 powi (- 505) \<le> \<bar>n\<bar> \<and> \<bar>n\<bar> \<le> 2 powi 250)) \<and> (x \<noteq> 0 \<longrightarrow> n \<noteq> 0) \<and>
           (1 - unit_roundoff) * (\<bar>x\<bar> / L) \<le> \<bar>n\<bar> \<and> \<bar>n\<bar> \<le> (1 + unit_roundoff) * (\<bar>x\<bar> / L) \<and>
           \<bar>n - x / s\<bar> \<le> 2 powi (- 50) * \<bar>x / s\<bar>"
proof -
  let ?u = unit_roundoff
  let ?al = "1 - ?u" and ?be = "1 + ?u"
  have al: "0 < ?al" "?al \<le> 1" "1 / 2 \<le> ?al" and be: "1 \<le> ?be"
    using u_bounds u_half by simp_all
  have al3: "0 < ?al ^ 3" using al by simp
  have be3: "0 < ?be ^ 3" using be by simp
  have "0 < ?al ^ 3 * s" using al3 s by simp
  with L1 have Lp: "0 < L" by linarith
  let ?v = "x / L"
  have av: "\<bar>?v\<bar> = \<bar>x\<bar> / L" using Lp by simp
  have "(1 / 2) ^ 3 \<le> ?al ^ 3" using al by (intro power_mono) simp_all
  then have "1 / 8 \<le> ?al ^ 3" by (simp add: power3_eq_cube)
  then have "1 / 8 * s \<le> ?al ^ 3 * s" using s by (intro mult_right_mono) simp_all
  with L1 xs have "\<bar>x\<bar> \<le> 8 * L" by linarith
  then have "\<bar>x\<bar> / L \<le> 8" using Lp by (simp add: pos_divide_le_eq)
  then have vhi: "\<bar>?v\<bar> \<le> 2 powi 3" unfolding av by simp
  have vlo: "?v = 0 \<or> 2 powi (- 504) \<le> \<bar>?v\<bar>"
  proof (cases "x = 0")
    case True then show ?thesis by simp
  next
    case False
    with rx have x: "2 powi (- 250) \<le> \<bar>x\<bar>" by blast
    have "2 powi (- 504) * L \<le> 2 powi (- 504) * 2 powi 254" using L3 by (intro mult_left_mono) simp_all
    also have "\<dots> = (2::real) powi (- 504 + 254)" by (rule power_int_add [symmetric]) simp
    also have "\<dots> = 2 powi (- 250)" by simp
    finally have "2 powi (- 504) * L \<le> \<bar>x\<bar>" using x by linarith
    then have "2 powi (- 504) \<le> \<bar>x\<bar> / L" using Lp by (simp add: pos_le_divide_eq)
    then show ?thesis unfolding av by blast
  qed
  note r = round_range [OF vlo vhi]
  let ?n = "rd ?v"
  have r1: "to_double ?v = Finite ?n" and r2: "?al * \<bar>?v\<bar> \<le> \<bar>?n\<bar>" and r3: "\<bar>?n\<bar> \<le> ?be * \<bar>?v\<bar>"
    and r4: "?v = 0 \<longrightarrow> ?n = 0" and r5: "?v \<noteq> 0 \<longrightarrow> 2 powi (- 504 - 1) \<le> \<bar>?n\<bar>"
    and r6: "\<bar>?n\<bar> \<le> 2 powi (3 + 1)"
    using r by simp_all
  have ev: "ddiv (Finite x) (Finite L) = Finite ?n" using Lp r1 by simp
  have "(2::real) powi (3 + 1) \<le> 2 powi 250" by (intro power_int_increasing) simp_all
  with r6 have n250: "\<bar>?n\<bar> \<le> 2 powi 250" by linarith
  have e505: "(- 504 - 1 :: int) = - 505" by simp
  have rng: "?n = 0 \<or> (2 powi (- 505) \<le> \<bar>?n\<bar> \<and> \<bar>?n\<bar> \<le> 2 powi 250)"
    using r4 r5 n250 unfolding e505 by blast
  have "(0::real) < 2 powi (- 505)" by simp
  then have nzero: "x \<noteq> 0 \<longrightarrow> ?n \<noteq> 0" using r5 Lp unfolding e505 by auto
  have err: "\<bar>?n - ?v\<bar> \<le> ?u * \<bar>?v\<bar>"
  proof (cases "?v = 0")
    case True
    with r4 have n0: "?n = 0" by blast
    have "\<bar>?n - ?v\<bar> = 0" by (simp only: n0 True) simp
    moreover have "?u * \<bar>?v\<bar> = 0" by (simp only: True abs_zero mult_zero_right)
    ultimately show ?thesis by linarith
  next
    case False
    with vlo have "2 powi (- 504) \<le> \<bar>?v\<bar>" by blast
    moreover have "(2::real) powi (- 1022) \<le> 2 powi (- 504)" by (intro power_int_increasing) simp_all
    ultimately have "2 powi (- 1022) \<le> \<bar>?v\<bar>" by linarith
    from rd_error [OF this] show ?thesis unfolding unit_roundoff_def .
  qed
  let ?g = "s / L"
  have g1: "?g \<le> 1 + 4 * ?u"
  proof -
    have "s \<le> (1 + 4 * ?u) * (?al ^ 3 * s)"
      using mult_right_mono [OF u_numeric(3), of s] s by (simp add: mult.assoc)
    also have "\<dots> \<le> (1 + 4 * ?u) * L" using L1 u_bounds by (intro mult_left_mono) simp_all
    finally show ?thesis using Lp by (simp add: pos_divide_le_eq)
  qed
  have g2: "1 - 4 * ?u \<le> ?g"
  proof -
    have p: "0 \<le> 1 - 4 * ?u" by (simp add: unit_roundoff_def)
    have "(1 - 4 * ?u) * L \<le> (1 - 4 * ?u) * (?be ^ 3 * s)" using L2 p by (intro mult_left_mono) simp_all
    also have "\<dots> \<le> s"
      using mult_right_mono [OF u_numeric(4), of s] s by (simp add: mult.assoc)
    finally show ?thesis using Lp by (simp add: pos_le_divide_eq)
  qed
  have gp: "0 \<le> ?g" using s Lp by simp
  let ?w = "x / s"
  have vw: "?v = ?w * ?g" using s Lp by simp
  have d1: "\<bar>?v - ?w\<bar> \<le> 4 * ?u * \<bar>?w\<bar>"
  proof -
    have "?v - ?w = ?w * ?g - ?w" by (simp only: vw [symmetric])
    also have "\<dots> = ?w * (?g - 1)" by (simp only: right_diff_distrib mult_1_right)
    finally have "\<bar>?v - ?w\<bar> = \<bar>?w\<bar> * \<bar>?g - 1\<bar>" by (simp only: abs_mult)
    also have "\<dots> \<le> \<bar>?w\<bar> * (4 * ?u)" using g1 g2 by (intro mult_left_mono) simp_all
    finally show ?thesis by (simp add: mult.commute)
  qed
  have d2: "?u * \<bar>?v\<bar> \<le> ?u * (1 + 4 * ?u) * \<bar>?w\<bar>"
  proof -
    have "\<bar>?v\<bar> = \<bar>?w * ?g\<bar>" by (simp only: vw [symmetric])
    also have "\<dots> = \<bar>?w\<bar> * ?g" using gp by (simp only: abs_mult abs_of_nonneg)
    also have "\<dots> \<le> \<bar>?w\<bar> * (1 + 4 * ?u)" using g1 by (intro mult_left_mono) simp_all
    finally have "?u * \<bar>?v\<bar> \<le> ?u * (\<bar>?w\<bar> * (1 + 4 * ?u))"
      using u_bounds by (intro mult_left_mono) simp_all
    then show ?thesis by (simp add: mult_ac)
  qed
  have "\<bar>?n - ?w\<bar> \<le> \<bar>?n - ?v\<bar> + \<bar>?v - ?w\<bar>" by simp
  also have "\<dots> \<le> ?u * (1 + 4 * ?u) * \<bar>?w\<bar> + 4 * ?u * \<bar>?w\<bar>" using err d1 d2 by linarith
  also have "\<dots> = (?u * (1 + 4 * ?u) + 4 * ?u) * \<bar>?w\<bar>" by (simp add: algebra_simps)
  also have "\<dots> \<le> (8 * ?u) * \<bar>?w\<bar>" using u_numeric(5) by (intro mult_right_mono) simp_all
  finally have close: "\<bar>?n - ?w\<bar> \<le> 2 powi (- 50) * \<bar>?w\<bar>" unfolding u_numeric(6) .
  from ev rng nzero r2 r3 close show ?thesis unfolding av by blast
qed

lemma widen_range:
  fixes v :: real
  assumes "v = 0 \<or> (2 powi (- 250) \<le> \<bar>v\<bar> \<and> \<bar>v\<bar> \<le> 2 powi 250)"
  shows "v = 0 \<or> (2 powi (- 505) \<le> \<bar>v\<bar> \<and> \<bar>v\<bar> \<le> 2 powi 250)"
proof -
  have "(2::real) powi (- 505) \<le> 2 powi (- 250)" by (intro power_int_increasing) simp_all
  with assms show ?thesis by linarith
qed

lemma sq_lower:
  fixes n a c :: real
  assumes "0 \<le> c" "0 \<le> a" "c * a \<le> \<bar>n\<bar>"
  shows "c\<^sup>2 * a\<^sup>2 \<le> n * n"
proof -
  have "0 \<le> c * a" using assms by simp
  then have "(c * a)\<^sup>2 \<le> \<bar>n\<bar>\<^sup>2" using assms(3) by (rule power_mono [rotated])
  then show ?thesis by (simp add: power2_eq_square mult_ac)
qed

lemma sq_upper:
  fixes n a c :: real
  assumes "\<bar>n\<bar> \<le> c * a"
  shows "n * n \<le> c\<^sup>2 * a\<^sup>2"
proof -
  have "\<bar>n\<bar>\<^sup>2 \<le> (c * a)\<^sup>2" using assms by (intro power_mono) simp_all
  then show ?thesis by (simp add: power2_eq_square mult_ac)
qed

lemma normalize_safe:
  fixes x y z :: real
  assumes rx: "x = 0 \<or> (2 powi (- 250) \<le> \<bar>x\<bar> \<and> \<bar>x\<bar> \<le> 2 powi 250)"
    and ry: "y = 0 \<or> (2 powi (- 250) \<le> \<bar>y\<bar> \<and> \<bar>y\<bar> \<le> 2 powi 250)"
    and rz: "z = 0 \<or> (2 powi (- 250) \<le> \<bar>z\<bar> \<and> \<bar>z\<bar> \<le> 2 powi 250)"
    and nz: "x \<noteq> 0 \<or> y \<noteq> 0 \<or> z \<noteq> 0"
  shows "\<exists>nx ny nz L.
           normalize_d (Vector3_d (Finite x) (Finite y) (Finite z)) =
             Vector3_d (Finite nx) (Finite ny) (Finite nz) \<and>
           \<bar>nx - x / sqrt (x * x + y * y + z * z)\<bar> \<le> 2 powi (- 50) * \<bar>x / sqrt (x * x + y * y + z * z)\<bar> \<and>
           \<bar>ny - y / sqrt (x * x + y * y + z * z)\<bar> \<le> 2 powi (- 50) * \<bar>y / sqrt (x * x + y * y + z * z)\<bar> \<and>
           \<bar>nz - z / sqrt (x * x + y * y + z * z)\<bar> \<le> 2 powi (- 50) * \<bar>z / sqrt (x * x + y * y + z * z)\<bar> \<and>
           len_d (Vector3_d (Finite nx) (Finite ny) (Finite nz)) = Finite L \<and>
           \<bar>L - 1\<bar> \<le> 2 powi (- 50)"
proof -
  let ?u = unit_roundoff
  let ?al = "1 - ?u" and ?be = "1 + ?u"
  let ?q = "x * x + y * y + z * z"
  let ?s = "sqrt ?q"
  have al: "0 < ?al" "?al \<le> 1" and be: "1 \<le> ?be"
    using u_bounds u_half by simp_all
  have xx: "0 \<le> x * x" "0 \<le> y * y" "0 \<le> z * z" by simp_all
  have "0 < x * x \<or> 0 < y * y \<or> 0 < z * z" using nz by (simp add: zero_less_mult_iff) linarith
  with xx have q: "0 < ?q" by linarith
  then have s: "0 < ?s" by simp
  have s2: "?s\<^sup>2 = ?q" using q by simp
  have xs: "\<bar>x\<bar> \<le> ?s"
  proof -
    have "sqrt (x * x) \<le> ?s" using xx by (intro real_sqrt_le_mono) linarith
    then show ?thesis by simp
  qed
  have ys: "\<bar>y\<bar> \<le> ?s"
  proof -
    have "sqrt (y * y) \<le> ?s" using xx by (intro real_sqrt_le_mono) linarith
    then show ?thesis by simp
  qed
  have zs: "\<bar>z\<bar> \<le> ?s"
  proof -
    have "sqrt (z * z) \<le> ?s" using xx by (intro real_sqrt_le_mono) linarith
    then show ?thesis by simp
  qed
  from len_bounds [OF widen_range [OF rx] widen_range [OF ry] widen_range [OF rz] nz]
  obtain L0 where len0: "len_d (Vector3_d (Finite x) (Finite y) (Finite z)) = Finite L0"
    and L1: "?al ^ 3 * ?s \<le> L0" and L2: "L0 \<le> ?be ^ 3 * ?s" and L3: "L0 \<le> 2 powi 254"
    by blast
  have "0 < ?al ^ 3 * ?s" using al s by simp
  with L1 have L0p: "0 < L0" by linarith
  from quot_bounds [OF rx xs s L1 L2 L3] obtain nx where
    ex: "ddiv (Finite x) (Finite L0) = Finite nx"
    and rnx: "nx = 0 \<or> (2 powi (- 505) \<le> \<bar>nx\<bar> \<and> \<bar>nx\<bar> \<le> 2 powi 250)"
    and zx: "x \<noteq> 0 \<longrightarrow> nx \<noteq> 0"
    and lx: "?al * (\<bar>x\<bar> / L0) \<le> \<bar>nx\<bar>" and ux: "\<bar>nx\<bar> \<le> ?be * (\<bar>x\<bar> / L0)"
    and cx: "\<bar>nx - x / ?s\<bar> \<le> 2 powi (- 50) * \<bar>x / ?s\<bar>"
    by blast
  from quot_bounds [OF ry ys s L1 L2 L3] obtain ny where
    ey: "ddiv (Finite y) (Finite L0) = Finite ny"
    and rny: "ny = 0 \<or> (2 powi (- 505) \<le> \<bar>ny\<bar> \<and> \<bar>ny\<bar> \<le> 2 powi 250)"
    and zy: "y \<noteq> 0 \<longrightarrow> ny \<noteq> 0"
    and ly: "?al * (\<bar>y\<bar> / L0) \<le> \<bar>ny\<bar>" and uy: "\<bar>ny\<bar> \<le> ?be * (\<bar>y\<bar> / L0)"
    and cy: "\<bar>ny - y / ?s\<bar> \<le> 2 powi (- 50) * \<bar>y / ?s\<bar>"
    by blast
  from quot_bounds [OF rz zs s L1 L2 L3] obtain nz where
    ez: "ddiv (Finite z) (Finite L0) = Finite nz"
    and rnz: "nz = 0 \<or> (2 powi (- 505) \<le> \<bar>nz\<bar> \<and> \<bar>nz\<bar> \<le> 2 powi 250)"
    and zz: "z \<noteq> 0 \<longrightarrow> nz \<noteq> 0"
    and lz: "?al * (\<bar>z\<bar> / L0) \<le> \<bar>nz\<bar>" and uz: "\<bar>nz\<bar> \<le> ?be * (\<bar>z\<bar> / L0)"
    and cz: "\<bar>nz - z / ?s\<bar> \<le> 2 powi (- 50) * \<bar>z / ?s\<bar>"
    by blast
  have nrm: "normalize_d (Vector3_d (Finite x) (Finite y) (Finite z)) =
      Vector3_d (Finite nx) (Finite ny) (Finite nz)"
    by (simp only: normalize_d_len len0 Vector3_d.sel ex ey ez)
  have nn: "nx \<noteq> 0 \<or> ny \<noteq> 0 \<or> nz \<noteq> 0" using nz zx zy zz by blast
  let ?p = "nx * nx + ny * ny + nz * nz"
  let ?r = "sqrt ?p"
  from len_bounds [OF rnx rny rnz nn]
  obtain L where len: "len_d (Vector3_d (Finite nx) (Finite ny) (Finite nz)) = Finite L"
    and M1: "?al ^ 3 * ?r \<le> L" and M2: "L \<le> ?be ^ 3 * ?r"
    by blast
  let ?g = "?s / L0"
  have gp: "0 < ?g" using s L0p by simp
  have ax: "0 \<le> \<bar>x\<bar> / L0" "0 \<le> \<bar>y\<bar> / L0" "0 \<le> \<bar>z\<bar> / L0" using L0p by simp_all
  have sumsq: "(\<bar>x\<bar> / L0)\<^sup>2 + (\<bar>y\<bar> / L0)\<^sup>2 + (\<bar>z\<bar> / L0)\<^sup>2 = ?g\<^sup>2"
  proof -
    have "(\<bar>x\<bar> / L0)\<^sup>2 + (\<bar>y\<bar> / L0)\<^sup>2 + (\<bar>z\<bar> / L0)\<^sup>2 = ?q / L0\<^sup>2"
      by (simp add: power_divide power2_eq_square add_divide_distrib)
    also have "\<dots> = ?g\<^sup>2" by (simp only: power_divide s2)
    finally show ?thesis .
  qed
  have plow: "(?al * ?g)\<^sup>2 \<le> ?p"
  proof -
    have "?al\<^sup>2 * (\<bar>x\<bar> / L0)\<^sup>2 \<le> nx * nx" using al ax lx by (intro sq_lower) simp_all
    moreover have "?al\<^sup>2 * (\<bar>y\<bar> / L0)\<^sup>2 \<le> ny * ny" using al ax ly by (intro sq_lower) simp_all
    moreover have "?al\<^sup>2 * (\<bar>z\<bar> / L0)\<^sup>2 \<le> nz * nz" using al ax lz by (intro sq_lower) simp_all
    moreover have "(?al * ?g)\<^sup>2 =
        ?al\<^sup>2 * (\<bar>x\<bar> / L0)\<^sup>2 + ?al\<^sup>2 * (\<bar>y\<bar> / L0)\<^sup>2 + ?al\<^sup>2 * (\<bar>z\<bar> / L0)\<^sup>2"
      by (simp only: power_mult_distrib sumsq [symmetric] distrib_left)
    ultimately show ?thesis by linarith
  qed
  have pupp: "?p \<le> (?be * ?g)\<^sup>2"
  proof -
    have "nx * nx \<le> ?be\<^sup>2 * (\<bar>x\<bar> / L0)\<^sup>2" using ux by (rule sq_upper)
    moreover have "ny * ny \<le> ?be\<^sup>2 * (\<bar>y\<bar> / L0)\<^sup>2" using uy by (rule sq_upper)
    moreover have "nz * nz \<le> ?be\<^sup>2 * (\<bar>z\<bar> / L0)\<^sup>2" using uz by (rule sq_upper)
    moreover have "(?be * ?g)\<^sup>2 =
        ?be\<^sup>2 * (\<bar>x\<bar> / L0)\<^sup>2 + ?be\<^sup>2 * (\<bar>y\<bar> / L0)\<^sup>2 + ?be\<^sup>2 * (\<bar>z\<bar> / L0)\<^sup>2"
      by (simp only: power_mult_distrib sumsq [symmetric] distrib_left)
    ultimately show ?thesis by linarith
  qed
  have rlow: "?al * ?g \<le> ?r" using plow by (rule real_le_rsqrt)
  have rupp: "?r \<le> ?be * ?g"
  proof (rule real_le_lsqrt)
    have "0 \<le> ?be" using be by linarith
    moreover have "0 \<le> ?g" using gp by linarith
    ultimately show "0 \<le> ?be * ?g" by (rule mult_nonneg_nonneg)
    show "?p \<le> (?be * ?g)\<^sup>2" by (rule pupp)
  qed
  have g1: "?al ^ 3 * ?g \<le> 1"
  proof -
    have "?al ^ 3 * ?g = (?al ^ 3 * ?s) / L0" by simp
    also have "\<dots> \<le> 1" using L1 L0p by (simp only: pos_divide_le_eq mult_1)
    finally show ?thesis .
  qed
  have g2: "1 \<le> ?be ^ 3 * ?g"
  proof -
    have "1 \<le> (?be ^ 3 * ?s) / L0" using L2 L0p by (simp only: pos_le_divide_eq mult_1)
    also have "\<dots> = ?be ^ 3 * ?g" by simp
    finally show ?thesis .
  qed
  have e8: "0 \<le> 1 - 8 * ?u" by (simp add: unit_roundoff_def)
  have low: "1 - 8 * ?u \<le> L"
  proof -
    have "1 - 8 * ?u \<le> (1 - 8 * ?u) * (?be ^ 3 * ?g)"
      using mult_left_mono [OF g2 e8] by simp
    also have "\<dots> = ((1 - 8 * ?u) * ?be ^ 3) * ?g" by (simp only: mult.assoc)
    also have "\<dots> \<le> ?al ^ 4 * ?g" using u_numeric(1) gp by (intro mult_right_mono) simp_all
    also have "\<dots> = ?al ^ 3 * (?al * ?g)" by (simp add: power_numeral_reduce mult_ac del: power_numeral)
    also have "\<dots> \<le> ?al ^ 3 * ?r" using rlow al by (intro mult_left_mono) simp_all
    finally show ?thesis using M1 by linarith
  qed
  have upp: "L \<le> 1 + 8 * ?u"
  proof -
    have "?be ^ 3 * ?r \<le> ?be ^ 3 * (?be * ?g)" using rupp be by (intro mult_left_mono) simp_all
    also have "\<dots> = ?be ^ 4 * ?g" by (simp add: power_numeral_reduce mult_ac del: power_numeral)
    also have "\<dots> \<le> ((1 + 8 * ?u) * ?al ^ 3) * ?g" using u_numeric(2) gp by (intro mult_right_mono) simp_all
    also have "\<dots> = (1 + 8 * ?u) * (?al ^ 3 * ?g)" by (simp only: mult.assoc)
    also have "\<dots> \<le> (1 + 8 * ?u) * 1" using g1 u_bounds by (intro mult_left_mono) simp_all
    also have "\<dots> = 1 + 8 * ?u" by simp
    finally show ?thesis using M2 by linarith
  qed
  from low upp have "\<bar>L - 1\<bar> \<le> 8 * ?u" by linarith
  then have "\<bar>L - 1\<bar> \<le> 2 powi (- 50)" unfolding u_numeric(6) .
  with nrm cx cy cz len show ?thesis by blast
qed

section \<open>Ray construction\<close>

text \<open>
  In exact arithmetic the constructor stores the direction divided by its length, and the
  stored direction has length 1.
\<close>

lemma mk_Ray_exact:
  "d \<noteq> Vector3 0 0 0 \<Longrightarrow>
     origin (mk_Ray p d) = p \<and> direction (mk_Ray p d) = vmul d (1 / len d) \<and>
     len (direction (mk_Ray p d)) = 1"
proof -
  assume d: "d \<noteq> Vector3 0 0 0"
  have "origin (mk_Ray p d) = p" by (simp add: mk_Ray_def)
  moreover have "direction (mk_Ray p d) = vmul d (1 / len d)"
    by (simp add: mk_Ray_def normalize_vec_eq len_dot)
  moreover have "len (direction (mk_Ray p d)) = 1"
    by (simp add: mk_Ray_def len_dot dot_normalize_vec [OF d])
  ultimately show ?thesis by blast
qed

text \<open>
  In double arithmetic the length of the stored direction depends on the magnitude of the
  direction given. The square of \<open>tiny\<close> underflows to the smallest subnormal number, whose
  square root is \<open>2 powi (- 537)\<close>: the direction stored for \<open>(tiny, 0, 0)\<close> is
  \<open>(9/8, 0, 0)\<close>. The square of \<open>huge\<close> overflows to infinity: the direction stored for
  \<open>(huge, 0, 0)\<close> is the zero vector.
\<close>

lemma huge_double: "to_double huge = Finite huge" "huge \<noteq> 0"
  using to_double_pow2 [of 700] by (simp_all add: huge_def)

lemma safe_componentD:
  assumes "safe_component c"
  obtains v where "c = Finite v" "v = 0 \<or> (2 powi (- 250) \<le> \<bar>v\<bar> \<and> \<bar>v\<bar> \<le> 2 powi 250)"
  using assms by (cases c) simp_all

lemma normalize_vec_components:
  "vx (normalize_vec (Vector3 x y z)) = x / sqrt (x * x + y * y + z * z)"
  "vy (normalize_vec (Vector3 x y z)) = y / sqrt (x * x + y * y + z * z)"
  "vz (normalize_vec (Vector3 x y z)) = z / sqrt (x * x + y * y + z * z)"
  by (simp_all add: normalize_vec_def Let_def)

lemma normalize_vec_3_0_4: "normalize_vec (Vector3 3 0 4) = Vector3 (3 / 5) 0 (4 / 5)"
  by (simp add: normalize_vec_def Let_def sqrt_25)

text \<open>
  Claim C6. A constructed ray stores the origin as given, and as direction the quotients
  of the components of the direction given by its computed length. For a direction whose
  components are finite and zero or between \<open>2 powi (- 250)\<close> and \<open>2 powi 250\<close> in
  magnitude, not all zero, each stored component differs from the component of the exact
  normalized direction by at most \<open>2 powi (- 50)\<close> times the magnitude of that component,
  and the computed length of the stored direction differs from 1 by at most
  \<open>2 powi (- 50)\<close>.
\<close>

theorem mk_Ray_d_direction:
  "origin_d (mk_Ray_d p d) = p \<and>
   direction_d (mk_Ray_d p d) =
     Vector3_d (ddiv (x_d d) (len_d d)) (ddiv (y_d d) (len_d d)) (ddiv (z_d d) (len_d d)) \<and>
   (safe_direction d \<longrightarrow>
      (\<exists>x y z nx ny nz L.
         d = Vector3_d (Finite x) (Finite y) (Finite z) \<and>
         direction_d (mk_Ray_d p d) = Vector3_d (Finite nx) (Finite ny) (Finite nz) \<and>
         \<bar>nx - vx (normalize_vec (Vector3 x y z))\<bar> \<le>
           2 powi (- 50) * \<bar>vx (normalize_vec (Vector3 x y z))\<bar> \<and>
         \<bar>ny - vy (normalize_vec (Vector3 x y z))\<bar> \<le>
           2 powi (- 50) * \<bar>vy (normalize_vec (Vector3 x y z))\<bar> \<and>
         \<bar>nz - vz (normalize_vec (Vector3 x y z))\<bar> \<le>
           2 powi (- 50) * \<bar>vz (normalize_vec (Vector3 x y z))\<bar> \<and>
         len_d (direction_d (mk_Ray_d p d)) = Finite L \<and> \<bar>L - 1\<bar> \<le> 2 powi (- 50)))"
proof -
  have 1: "origin_d (mk_Ray_d p d) = p" by (simp add: mk_Ray_d_def)
  have 2: "direction_d (mk_Ray_d p d) =
      Vector3_d (ddiv (x_d d) (len_d d)) (ddiv (y_d d) (len_d d)) (ddiv (z_d d) (len_d d))"
    by (simp add: mk_Ray_d_def normalize_d_len)
  have 3: "\<exists>x y z nx ny nz L.
         d = Vector3_d (Finite x) (Finite y) (Finite z) \<and>
         direction_d (mk_Ray_d p d) = Vector3_d (Finite nx) (Finite ny) (Finite nz) \<and>
         \<bar>nx - vx (normalize_vec (Vector3 x y z))\<bar> \<le>
           2 powi (- 50) * \<bar>vx (normalize_vec (Vector3 x y z))\<bar> \<and>
         \<bar>ny - vy (normalize_vec (Vector3 x y z))\<bar> \<le>
           2 powi (- 50) * \<bar>vy (normalize_vec (Vector3 x y z))\<bar> \<and>
         \<bar>nz - vz (normalize_vec (Vector3 x y z))\<bar> \<le>
           2 powi (- 50) * \<bar>vz (normalize_vec (Vector3 x y z))\<bar> \<and>
         len_d (direction_d (mk_Ray_d p d)) = Finite L \<and> \<bar>L - 1\<bar> \<le> 2 powi (- 50)"
    if s: "safe_direction d"
  proof -
    obtain a b c where d: "d = Vector3_d a b c" by (cases d)
    from s d have sa: "safe_component a" and sb: "safe_component b" and sc: "safe_component c"
      and n0: "Vector3_d a b c \<noteq> Vector3_d (Finite 0) (Finite 0) (Finite 0)"
      by (simp_all add: safe_direction_def)
    from sa obtain x where x: "a = Finite x"
      and rx: "x = 0 \<or> (2 powi (- 250) \<le> \<bar>x\<bar> \<and> \<bar>x\<bar> \<le> 2 powi 250)"
      by (rule safe_componentD)
    from sb obtain y where y: "b = Finite y"
      and ry: "y = 0 \<or> (2 powi (- 250) \<le> \<bar>y\<bar> \<and> \<bar>y\<bar> \<le> 2 powi 250)"
      by (rule safe_componentD)
    from sc obtain z where z: "c = Finite z"
      and rz: "z = 0 \<or> (2 powi (- 250) \<le> \<bar>z\<bar> \<and> \<bar>z\<bar> \<le> 2 powi 250)"
      by (rule safe_componentD)
    have nz: "x \<noteq> 0 \<or> y \<noteq> 0 \<or> z \<noteq> 0" using n0 x y z by simp
    have dv: "d = Vector3_d (Finite x) (Finite y) (Finite z)" by (simp only: d x y z)
    from normalize_safe [OF rx ry rz nz] obtain nx ny nz L where
      n: "normalize_d (Vector3_d (Finite x) (Finite y) (Finite z)) =
            Vector3_d (Finite nx) (Finite ny) (Finite nz)"
      and cx: "\<bar>nx - x / sqrt (x * x + y * y + z * z)\<bar> \<le>
                 2 powi (- 50) * \<bar>x / sqrt (x * x + y * y + z * z)\<bar>"
      and cy: "\<bar>ny - y / sqrt (x * x + y * y + z * z)\<bar> \<le>
                 2 powi (- 50) * \<bar>y / sqrt (x * x + y * y + z * z)\<bar>"
      and cz: "\<bar>nz - z / sqrt (x * x + y * y + z * z)\<bar> \<le>
                 2 powi (- 50) * \<bar>z / sqrt (x * x + y * y + z * z)\<bar>"
      and l: "len_d (Vector3_d (Finite nx) (Finite ny) (Finite nz)) = Finite L"
      and b: "\<bar>L - 1\<bar> \<le> 2 powi (- 50)"
      by blast
    have dir: "direction_d (mk_Ray_d p d) = Vector3_d (Finite nx) (Finite ny) (Finite nz)"
      by (simp add: mk_Ray_d_def dv n)
    have l': "len_d (direction_d (mk_Ray_d p d)) = Finite L" by (simp only: dir l)
    note c = cx cy cz
    from dv dir c [folded normalize_vec_components] l' b show ?thesis by blast
  qed
  from 1 2 3 show ?thesis by blast
qed

theorem mk_Ray_d_direction_witness:
  "safe_direction (Vector3_d (Finite 3) (Finite 0) (Finite 4)) \<and>
   origin_d (mk_Ray_d (Vector3_d (Finite 1) (Finite 2) (Finite 3))
     (Vector3_d (Finite 3) (Finite 0) (Finite 4))) = Vector3_d (Finite 1) (Finite 2) (Finite 3) \<and>
   (\<exists>nx nz L.
      direction_d (mk_Ray_d (Vector3_d (Finite 1) (Finite 2) (Finite 3))
        (Vector3_d (Finite 3) (Finite 0) (Finite 4))) =
        Vector3_d (Finite nx) (Finite 0) (Finite nz) \<and>
      \<bar>nx - 3 / 5\<bar> \<le> 2 powi (- 50) * (3 / 5) \<and> \<bar>nz - 4 / 5\<bar> \<le> 2 powi (- 50) * (4 / 5) \<and>
      len_d (direction_d (mk_Ray_d (Vector3_d (Finite 1) (Finite 2) (Finite 3))
        (Vector3_d (Finite 3) (Finite 0) (Finite 4)))) = Finite L \<and>
      \<bar>L - 1\<bar> \<le> 2 powi (- 50))"
proof -
  let ?p = "Vector3_d (Finite 1) (Finite 2) (Finite 3)"
  let ?d = "Vector3_d (Finite 3) (Finite 0) (Finite 4)"
  have s: "safe_direction ?d" by (simp add: safe_direction_def)
  from mk_Ray_d_direction [of ?p ?d] s obtain x y z nx ny nz L where
    o: "origin_d (mk_Ray_d ?p ?d) = ?p"
    and d: "?d = Vector3_d (Finite x) (Finite y) (Finite z)"
    and dir: "direction_d (mk_Ray_d ?p ?d) = Vector3_d (Finite nx) (Finite ny) (Finite nz)"
    and cx: "\<bar>nx - vx (normalize_vec (Vector3 x y z))\<bar> \<le>
               2 powi (- 50) * \<bar>vx (normalize_vec (Vector3 x y z))\<bar>"
    and cy: "\<bar>ny - vy (normalize_vec (Vector3 x y z))\<bar> \<le>
               2 powi (- 50) * \<bar>vy (normalize_vec (Vector3 x y z))\<bar>"
    and cz: "\<bar>nz - vz (normalize_vec (Vector3 x y z))\<bar> \<le>
               2 powi (- 50) * \<bar>vz (normalize_vec (Vector3 x y z))\<bar>"
    and l: "len_d (direction_d (mk_Ray_d ?p ?d)) = Finite L"
    and b: "\<bar>L - 1\<bar> \<le> 2 powi (- 50)"
    by blast
  from d have xyz: "x = 3" "y = 0" "z = 4" by simp_all
  have "\<bar>nx - 3 / 5\<bar> \<le> 2 powi (- 50) * (3 / 5)"
    using cx unfolding xyz normalize_vec_3_0_4 Vector3.sel by simp
  moreover have "ny = 0"
    using cy unfolding xyz normalize_vec_3_0_4 Vector3.sel by simp
  moreover have "\<bar>nz - 4 / 5\<bar> \<le> 2 powi (- 50) * (4 / 5)"
    using cz unfolding xyz normalize_vec_3_0_4 Vector3.sel by simp
  ultimately show ?thesis using s o dir l b by blast
qed

text \<open>
  The claim as the specification states it, for every non-zero direction, does not hold
  of the program: \<open>(tiny, 0, 0)\<close> and \<open>(huge, 0, 0)\<close> are non-zero directions of the
  format, and the directions stored for them have the lengths \<open>9/8\<close> and 0.
\<close>

theorem mk_Ray_d_underflow_counterexample:
  "to_double tiny = Finite tiny \<and> tiny \<noteq> 0 \<and>
   direction_d (mk_Ray_d (Vector3_d (Finite 0) (Finite 0) (Finite 0))
     (Vector3_d (Finite tiny) (Finite 0) (Finite 0))) =
     Vector3_d (Finite (9 / 8)) (Finite 0) (Finite 0) \<and>
   len_d (direction_d (mk_Ray_d (Vector3_d (Finite 0) (Finite 0) (Finite 0))
     (Vector3_d (Finite tiny) (Finite 0) (Finite 0)))) = Finite (9 / 8) \<and>
   to_double huge = Finite huge \<and> huge \<noteq> 0 \<and>
   direction_d (mk_Ray_d (Vector3_d (Finite 0) (Finite 0) (Finite 0))
     (Vector3_d (Finite huge) (Finite 0) (Finite 0))) =
     Vector3_d (Finite 0) (Finite 0) (Finite 0) \<and>
   len_d (direction_d (mk_Ray_d (Vector3_d (Finite 0) (Finite 0) (Finite 0))
     (Vector3_d (Finite huge) (Finite 0) (Finite 0)))) = Finite 0"
  by (simp add: mk_Ray_d_def tiny_double huge_double normalize_tiny normalize_huge len_stretched
      len_zero)

section \<open>Sphere intersection\<close>

lemma intersect_unfold:
  "intersect s ray t =
     (if discriminant s ray < 0 then (False, t)
      else (min (root1 s ray) (root2 s ray) > 0, min (root1 s ray) (root2 s ray)))"
  by (simp add: intersect_def Let_def discriminant_def quad_a_def quad_b_def quad_c_def
      root1_def root2_def power2_eq_square min_def not_less)

text \<open>Three rays against the sphere of \<^verbatim>\<open>main\<close>: through its centre from outside, past
  it, and from its centre.\<close>

lemma ray_through:
  "discriminant sphere (mk_Ray (Vector3 0 0 0) (Vector3 0 0 (- 1))) = 1 \<and>
   root1 sphere (mk_Ray (Vector3 0 0 0) (Vector3 0 0 (- 1))) = 1 / 2 \<and>
   root2 sphere (mk_Ray (Vector3 0 0 0) (Vector3 0 0 (- 1))) = 3 / 2"
  by (simp add: discriminant_def root1_def root2_def quad_a_def quad_b_def quad_c_def
      sphere_def mk_Ray_def normalize_vec_def dot_def vsub_def power2_eq_square)

lemma ray_past:
  "discriminant sphere (mk_Ray (Vector3 0 0 0) (Vector3 0 1 0)) = - 3"
  by (simp add: discriminant_def quad_a_def quad_b_def quad_c_def
      sphere_def mk_Ray_def normalize_vec_def dot_def vsub_def power2_eq_square)

lemma ray_from_centre:
  "discriminant sphere (mk_Ray (Vector3 0 0 (- 1)) (Vector3 0 0 (- 1))) = 1 \<and>
   root1 sphere (mk_Ray (Vector3 0 0 (- 1)) (Vector3 0 0 (- 1))) = - 1 / 2 \<and>
   root2 sphere (mk_Ray (Vector3 0 0 (- 1)) (Vector3 0 0 (- 1))) = 1 / 2"
  by (simp add: discriminant_def root1_def root2_def quad_a_def quad_b_def quad_c_def
      sphere_def mk_Ray_def normalize_vec_def dot_def vsub_def power2_eq_square)

text \<open>
  Claim C1. With a negative discriminant the routine reports no hit. Otherwise the value
  it selects is the smaller of the two roots \<open>t1\<close> and \<open>t2\<close>, and it reports a hit
  exactly when that value is positive; so no hit is reported when the smaller root is at
  most 0, also when the larger root is positive.
\<close>

theorem intersect_selects_smaller_root:
  "(discriminant s ray < 0 \<longrightarrow> \<not> fst (intersect s ray t0)) \<and>
   (0 \<le> discriminant s ray \<longrightarrow>
      snd (intersect s ray t0) = min (root1 s ray) (root2 s ray) \<and>
      (fst (intersect s ray t0) \<longleftrightarrow> 0 < min (root1 s ray) (root2 s ray))) \<and>
   (0 \<le> discriminant s ray \<and> min (root1 s ray) (root2 s ray) \<le> 0 \<and>
      0 < max (root1 s ray) (root2 s ray) \<longrightarrow> \<not> fst (intersect s ray t0))"
  by (auto simp: intersect_unfold)

theorem intersect_selects_smaller_root_witness:
  "discriminant sphere (mk_Ray (Vector3 0 0 0) (Vector3 0 1 0)) < 0 \<and>
   \<not> fst (intersect sphere (mk_Ray (Vector3 0 0 0) (Vector3 0 1 0)) 0) \<and>
   0 \<le> discriminant sphere (mk_Ray (Vector3 0 0 0) (Vector3 0 0 (- 1))) \<and>
   snd (intersect sphere (mk_Ray (Vector3 0 0 0) (Vector3 0 0 (- 1))) 0) = 1 / 2 \<and>
   fst (intersect sphere (mk_Ray (Vector3 0 0 0) (Vector3 0 0 (- 1))) 0) \<and>
   0 \<le> discriminant sphere (mk_Ray (Vector3 0 0 (- 1)) (Vector3 0 0 (- 1))) \<and>
   min (root1 sphere (mk_Ray (Vector3 0 0 (- 1)) (Vector3 0 0 (- 1))))
       (root2 sphere (mk_Ray (Vector3 0 0 (- 1)) (Vector3 0 0 (- 1)))) \<le> 0 \<and>
   0 < max (root1 sphere (mk_Ray (Vector3 0 0 (- 1)) (Vector3 0 0 (- 1))))
           (root2 sphere (mk_Ray (Vector3 0 0 (- 1)) (Vector3 0 0 (- 1)))) \<and>
   \<not> fst (intersect sphere (mk_Ray (Vector3 0 0 (- 1)) (Vector3 0 0 (- 1))) 0)"
  using intersect_selects_smaller_root [of sphere "mk_Ray (Vector3 0 0 0) (Vector3 0 1 0)" 0]
    intersect_selects_smaller_root [of sphere "mk_Ray (Vector3 0 0 0) (Vector3 0 0 (- 1))" 0]
    intersect_selects_smaller_root
      [of sphere "mk_Ray (Vector3 0 0 (- 1)) (Vector3 0 0 (- 1))" 0]
  by (simp add: ray_through ray_past ray_from_centre)

text \<open>
  Claim C8. The ray from \<open>(0,0,0)\<close> in direction \<open>(0,0,-1)\<close> hits the sphere with
  centre \<open>(0,0,-1)\<close> and radius \<open>0.5\<close> at \<open>t = 0.5\<close>, the smaller of the two roots
  \<open>0.5\<close> and \<open>1.5\<close>, whatever the colour and albedo of the sphere and the previous
  content of \<open>t\<close>.
\<close>

theorem intersect_known_sphere:
  "intersect \<lparr>center = Vector3 0 0 (- 1), radius = 0.5, color = c, albedo = al\<rparr>
     (mk_Ray (Vector3 0 0 0) (Vector3 0 0 (- 1))) t0 = (True, 0.5) \<and>
   root1 \<lparr>center = Vector3 0 0 (- 1), radius = 0.5, color = c, albedo = al\<rparr>
     (mk_Ray (Vector3 0 0 0) (Vector3 0 0 (- 1))) = 0.5 \<and>
   root2 \<lparr>center = Vector3 0 0 (- 1), radius = 0.5, color = c, albedo = al\<rparr>
     (mk_Ray (Vector3 0 0 0) (Vector3 0 0 (- 1))) = 1.5"
  by (simp add: intersect_def discriminant_def root1_def root2_def quad_a_def quad_b_def
      quad_c_def mk_Ray_def normalize_vec_def dot_def vsub_def Let_def power2_eq_square)



section \<open>Shading\<close>

text \<open>
  The value selected on a hit is a positive root of the quadratic. A ray of direction zero
  is never reported as a hit: the model selects 0, the program NaN, and neither is
  greater than 0.
\<close>

lemma quadratic_root:
  fixes a b c t :: real
  assumes a: "a \<noteq> 0" and d: "0 \<le> b\<^sup>2 - 4 * a * c"
    and t: "t = (- b - sqrt (b\<^sup>2 - 4 * a * c)) / (2 * a) \<or>
            t = (- b + sqrt (b\<^sup>2 - 4 * a * c)) / (2 * a)"
  shows "a * t\<^sup>2 + b * t + c = 0"
proof -
  define s where "s = sqrt (b\<^sup>2 - 4 * a * c)"
  have s2: "s\<^sup>2 = b\<^sup>2 - 4 * a * c" using d by (simp add: s_def)
  have "2 * a * t = - b - s \<or> 2 * a * t = - b + s"
    using t a by (auto simp: s_def)
  then have "2 * a * t + b = - s \<or> 2 * a * t + b = s"
    by auto
  then have "(2 * a * t + b)\<^sup>2 = s\<^sup>2"
    by auto
  then have "4 * a * (a * t\<^sup>2 + b * t + c) = 0"
    using s2 by (simp add: power2_eq_square algebra_simps)
  then show ?thesis using a by simp
qed

lemma hit_point:
  assumes "intersect s ray t0 = (True, t)"
  shows "0 < t \<and> quad_a s ray \<noteq> 0 \<and>
         quad_a s ray * t\<^sup>2 + quad_b s ray * t + quad_c s ray = 0"
proof -
  from assms have d: "\<not> discriminant s ray < 0"
    and t: "t = min (root1 s ray) (root2 s ray)" and pos: "0 < t"
    by (auto simp: intersect_unfold split: if_splits)
  have a: "quad_a s ray \<noteq> 0"
  proof
    assume "quad_a s ray = 0"
    then have "t = 0" using t by (simp add: root1_def root2_def)
    with pos show False by simp
  qed
  have "t = root1 s ray \<or> t = root2 s ray" using t by (auto simp: min_def)
  then have "quad_a s ray * t\<^sup>2 + quad_b s ray * t + quad_c s ray = 0"
    using quadratic_root [OF a, of "quad_b s ray" "quad_c s ray" t] d
    by (simp add: root1_def root2_def discriminant_def)
  with pos a show ?thesis by simp
qed

lemma hit_on_sphere:
  assumes "intersect s ray t0 = (True, t)"
  shows "dot (vsub (vadd (origin ray) (vmul (direction ray) t)) (center s))
             (vsub (vadd (origin ray) (vmul (direction ray) t)) (center s)) = (radius s)\<^sup>2"
  using hit_point [OF assms] by (simp add: point_on_ray quad_a_def quad_b_def quad_c_def)

lemma trace_miss:
  "\<not> fst (intersect s ray t0) \<Longrightarrow> trace t0 ray s l = Vector3 0.1 0.1 0.1"
  by (cases "intersect s ray t0") (simp add: trace_def)

lemma far_ray_misses:
  assumes r: "0 \<le> radius s"
    and far: "\<forall>t\<ge>0. radius s <
                len (vsub (vadd (origin ray) (vmul (direction ray) t)) (center s))"
  shows "\<not> fst (intersect s ray t0)"
proof
  assume "fst (intersect s ray t0)"
  then obtain t where hit: "intersect s ray t0 = (True, t)"
    by (cases "intersect s ray t0") simp
  have "0 < t" using hit_point [OF hit] by simp
  then have "radius s < len (vsub (vadd (origin ray) (vmul (direction ray) t)) (center s))"
    using far by simp
  also have "\<dots> = sqrt ((radius s)\<^sup>2)"
    by (simp only: len_dot hit_on_sphere [OF hit])
  also have "\<dots> = radius s" using r by simp
  finally show False by simp
qed















text \<open>
  Claim C9. The only thing \<open>trace\<close> reads besides its three arguments is the local
  \<open>t\<close>, which has no initial value; the colour returned does not depend on it. Two calls
  with the same ray, sphere and light return the same colour.
\<close>

theorem trace_deterministic:
  "trace t0 ray s l = trace t0' ray s l"
  by (simp add: trace_def intersect_unfold)

section \<open>The camera and viewport sampler\<close>

text \<open>
  Claim C5. For a pixel \<open>(i, j)\<close> of the image, \<open>u = i / (width - 1)\<close> and
  \<open>v = j / (height - 1)\<close>, both between 0 and 1; the ray starts at the camera and its
  direction is the normalized \<open>lower_left_corner + horizontal * u + vertical * v -
  camera\<close>, which is \<open>(-4/3 + 8/3 * i/799, -1 + 2 * j/599, -1)\<close> for the 800 by 600
  image of \<^verbatim>\<open>main\<close>. The viewport is 2 high and \<open>2 * (width / height)\<close> wide, the focal
  length is 1, and the lower left corner is \<open>camera - horizontal/2 - vertical/2 -
  (0, 0, focal_length)\<close>.
\<close>

theorem sampler_ray:
  "0 \<le> i \<and> i < width \<and> 0 \<le> j \<and> j < height \<Longrightarrow>
   main_u i = real_of_int i / real_of_int (width - 1) \<and>
   main_v j = real_of_int j / real_of_int (height - 1) \<and>
   0 \<le> main_u i \<and> main_u i \<le> 1 \<and> 0 \<le> main_v j \<and> main_v j \<le> 1 \<and>
   origin (main_ray i j) = camera \<and>
   direction (main_ray i j) = normalize_vec (main_dir i j) \<and>
   main_dir i j =
     vsub (vadd (vadd lower_left_corner (vmul horizontal (main_u i))) (vmul vertical (main_v j)))
       camera \<and>
   main_dir i j =
     Vector3 (- 4 / 3 + 8 / 3 * (real_of_int i / 799)) (- 1 + 2 * (real_of_int j / 599)) (- 1) \<and>
   viewport_height = 2 \<and>
   viewport_width = viewport_height * (real_of_int width / real_of_int height) \<and>
   focal_length = 1 \<and>
   lower_left_corner =
     vsub (vsub (vsub camera (vmul horizontal (1 / 2))) (vmul vertical (1 / 2)))
       (Vector3 0 0 focal_length)"
  by (simp add: main_u_def main_v_def main_ray_def mk_Ray_def main_dir_def width_def height_def
      lower_left_corner_def horizontal_def vertical_def camera_def vsub_def vadd_def vmul_def
      viewport_height_def viewport_width_def focal_length_def)

theorem sampler_ray_witness:
  "0 \<le> (799::int) \<and> 799 < width \<and> 0 \<le> (0::int) \<and> 0 < height \<and>
   main_u 799 = 1 \<and> main_v 0 = 0 \<and> origin (main_ray 799 0) = Vector3 0 0 0 \<and>
   main_dir 799 0 = Vector3 (4 / 3) (- 1) (- 1)"
  using sampler_ray [of 799 0]
  by (auto simp: width_def height_def camera_def)

section \<open>The image encoder\<close>

subsection \<open>The two loops\<close>

text \<open>
  When every index is in range, the inner loop appends the pixels of row \<open>j\<close> from
  column \<open>i\<close> on, and the outer loop appends the rows from \<open>j\<close> down to 0.
\<close>

lemma row_loop_done: "\<not> i < w \<Longrightarrow> row_loop w fb j i out = Inr out"
  by (subst row_loop.simps) simp

lemma row_loop_step:
  assumes lt: "i < w" and r1: "int32 (j * w)" and r2: "int32 (j * w + i)"
    and i1: "0 \<le> j * w + i" and i2: "j * w + i < int (length fb)"
  shows "row_loop w fb j i out = row_loop w fb j (i + 1) (out @ bgr (fb ! nat (j * w + i)))"
proof -
  have n: "\<not> (\<not> int32 (j * w) \<or> \<not> int32 (j * w + i))"
    "\<not> (j * w + i < 0 \<or> int (length fb) \<le> j * w + i)"
    using r1 r2 i1 i2 by simp_all
  show ?thesis
    by (subst row_loop.simps) (simp only: lt n if_True if_False Let_def bgr_def)
qed

lemma row_loop_closed:
  assumes j: "0 \<le> j" and i: "0 \<le> i" and top: "int32 (j * w + w)"
    and len: "j * w + w \<le> int (length fb)"
  shows "row_loop w fb j i out =
           Inr (out @ concat (map (\<lambda>k. bgr (fb ! nat (j * w + k))) [i..w - 1]))"
  using i
proof (induction "nat (w - i)" arbitrary: i out)
  case 0
  then have "\<not> i < w" by simp
  then show ?case by (simp add: row_loop_done)
next
  case (Suc n)
  then have lt: "i < w" by linarith
  have jw: "0 \<le> j * w" using j lt Suc.prems by simp
  have t: "j * w + w < 2 ^ 31" using top by (simp add: int32_def)
  have "- (2 ^ 31) \<le> j * w \<and> j * w < 2 ^ 31 \<and>
        - (2 ^ 31) \<le> j * w + i \<and> j * w + i < 2 ^ 31"
    using jw t lt Suc.prems by linarith
  then have rng: "int32 (j * w)" "int32 (j * w + i)"
    by (simp_all add: int32_def)
  have idx: "0 \<le> j * w + i" "j * w + i < int (length fb)"
    using Suc.prems len lt jw by linarith+
  have up: "[i..w - 1] = i # [i + 1..w - 1]" using lt by (simp add: upto_rec1)
  have n: "n = nat (w - (i + 1))" using Suc.hyps(2) by linarith
  have "row_loop w fb j i out = row_loop w fb j (i + 1) (out @ bgr (fb ! nat (j * w + i)))"
    using lt rng idx by (rule row_loop_step)
  also have "\<dots> = Inr ((out @ bgr (fb ! nat (j * w + i))) @
      concat (map (\<lambda>k. bgr (fb ! nat (j * w + k))) [i + 1..w - 1]))"
    using Suc.prems by (intro Suc.hyps(1) [OF n]) simp
  finally show ?case by (simp add: up)
qed

lemma rows_loop_done: "\<not> 0 \<le> j \<Longrightarrow> rows_loop w fb j out = Inr out"
  by (subst rows_loop.simps) simp

lemma rows_loop_closed:
  assumes w: "0 \<le> w" and top: "int32 ((j + 1) * w)"
    and len: "(j + 1) * w \<le> int (length fb)"
  shows "rows_loop w fb j out = Inr (out @ concat (map (row_bytes w fb) (rev [0..j])))"
  using top len
proof (induction "nat (j + 1)" arbitrary: j out)
  case 0
  then have "\<not> 0 \<le> j" by simp
  then show ?case by (simp add: rows_loop_done)
next
  case (Suc n)
  then have j: "0 \<le> j" by linarith
  have n: "n = nat (j - 1 + 1)" using Suc.hyps(2) by linarith
  have e: "j * w + w = (j + 1) * w" by (simp add: algebra_simps)
  have row: "row_loop w fb j 0 out = Inr (out @ row_bytes w fb j)"
    unfolding row_bytes_def using j Suc.prems
    by (intro row_loop_closed) (simp_all add: e)
  have le: "(j - 1 + 1) * w \<le> (j + 1) * w" using w by (simp add: mult_right_mono)
  have le0: "0 \<le> (j - 1 + 1) * w" using w j by simp
  have top': "int32 ((j - 1 + 1) * w)"
    using Suc.prems(1) le le0 unfolding int32_def by linarith
  have len': "(j - 1 + 1) * w \<le> int (length fb)" using Suc.prems(2) le by linarith
  have up: "rev [0..j] = j # rev [0..j - 1]" using j by (simp add: upto_rec2)
  have "rows_loop w fb j out = rows_loop w fb (j - 1) (out @ row_bytes w fb j)"
    using j by (subst rows_loop.simps) (simp add: row)
  also have "\<dots> = Inr ((out @ row_bytes w fb j) @ concat (map (row_bytes w fb) (rev [0..j - 1])))"
    by (rule Suc.hyps(1) [OF n top' len'])
  finally show ?case by (simp add: up)
qed

subsection \<open>The headers\<close>

lemma le_bytes_2: "le_bytes 2 v = [word_of_nat (v mod 256), word_of_nat (v div 256 mod 256)]"
proof -
  have "(2::nat) = Suc (Suc 0)" by simp
  then show ?thesis by (simp only: le_bytes.simps)
qed

lemma le_bytes_4: "le_bytes 4 v = [word_of_nat (v mod 256), word_of_nat (v div 256 mod 256),
    word_of_nat (v div 256 div 256 mod 256), word_of_nat (v div 256 div 256 div 256 mod 256)]"
proof -
  have "(4::nat) = Suc (Suc (Suc (Suc 0)))" by simp
  then show ?thesis by (simp only: le_bytes.simps)
qed

lemma header_const_bytes:
  "bytes16 0x4D42 = [0x42, 0x4D]" "bytes16 0 = [0, 0]" "bytes16 1 = [1, 0]" "bytes16 24 = [24, 0]"
  "bytes32 0 = [0, 0, 0, 0]" "bytes32 54 = [54, 0, 0, 0]" "bytes32 40 = [40, 0, 0, 0]"
  by (simp_all add: bytes16_def bytes32_def le_bytes_2 le_bytes_4)

lemma length_le_bytes: "length (le_bytes n v) = n"
  by (induction n arbitrary: v) simp_all

lemma le_value_le_bytes: "v < 256 ^ n \<Longrightarrow> le_value (le_bytes n v) = v"
proof (induction n arbitrary: v)
  case 0
  then show ?case by simp
next
  case (Suc n)
  then have "v div 256 < 256 ^ n"
    by (simp add: less_mult_imp_div_less mult.commute)
  then have "le_value (le_bytes n (v div 256)) = v div 256" by (rule Suc.IH)
  moreover have "unat (word_of_nat (v mod 256) :: byte) = v mod 256"
    by (simp add: unat_of_nat)
  ultimately show ?case by simp
qed

lemma le_value_bytes32: "le_value (bytes32 x) = unat x"
proof -
  have "unat x < 2 ^ 32" using unsigned_less [of x] by simp
  then have "unat x < 256 ^ 4" by simp
  then show ?thesis unfolding bytes32_def by (rule le_value_le_bytes)
qed

lemma le_value_bytes16: "le_value (bytes16 x) = unat x"
proof -
  have "unat x < 2 ^ 16" using unsigned_less [of x] by simp
  then have "unat x < 256 ^ 2" by simp
  then show ?thesis unfolding bytes16_def by (rule le_value_le_bytes)
qed

lemma length_bytes: "length (bytes16 a) = 2" "length (bytes32 b) = 4"
  by (simp_all add: bytes16_def bytes32_def length_le_bytes)

lemma sizeof_headers:
  "int (length (BMPHeader_bytes hd1)) = sizeof_BMPHeader"
  "int (length (BMPInfoHeader_bytes hd2)) = sizeof_BMPInfoHeader"
  by (simp_all add: BMPHeader_bytes_def BMPInfoHeader_bytes_def length_bytes
      sizeof_BMPHeader_def sizeof_BMPInfoHeader_def)

lemma headers_written:
  "BMPHeader_bytes (BMPHeader_init
      \<lparr>fileSize := word_of_int (sizeof_BMPHeader + sizeof_BMPInfoHeader + w * h * 3)\<rparr>) @
   BMPInfoHeader_bytes (BMPInfoHeader_init
      \<lparr>width_info := word_of_int w, height_info := word_of_int h\<rparr>) = header_bytes w h"
  by (simp add: BMPHeader_bytes_def BMPInfoHeader_bytes_def BMPHeader_init_def
      BMPInfoHeader_init_def header_const_bytes header_bytes_def sizeof_BMPHeader_def
      sizeof_BMPInfoHeader_def)

lemma length_header_bytes: "length (header_bytes w h) = 54"
  by (simp add: header_bytes_def length_bytes)

text \<open>
  Whatever the buffer holds, a run of the loops that ends without undefined behaviour has
  appended three bytes for each pixel of each row.
\<close>

lemma row_loop_extends:
  "row_loop w fb j i out = Inr res \<Longrightarrow>
     \<exists>data. res = out @ data \<and> length data = 3 * nat (w - i)"
proof (induction "nat (w - i)" arbitrary: i out)
  case 0
  then have "\<not> i < w" by simp
  with 0 show ?case by (simp add: row_loop_done)
next
  case (Suc n)
  then have lt: "i < w" by linarith
  have n: "n = nat (w - (i + 1))" using Suc.hyps(2) by linarith
  from Suc.prems lt obtain b g r where
    "row_loop w fb j (i + 1) (out @ [b, g, r]) = Inr res"
    by (subst (asm) row_loop.simps) (auto simp: Let_def split: if_splits)
  from Suc.hyps(1) [OF n this] obtain data where
    d: "res = (out @ [b, g, r]) @ data" "length data = 3 * nat (w - (i + 1))" by blast
  have "length ([b, g, r] @ data) = 3 * nat (w - i)" using d(2) lt by simp
  with d(1) show ?case by (intro exI [of _ "[b, g, r] @ data"]) simp
qed

lemma rows_loop_extends:
  "rows_loop w fb j out = Inr res \<Longrightarrow>
     \<exists>data. res = out @ data \<and> length data = 3 * nat w * nat (j + 1)"
proof (induction "nat (j + 1)" arbitrary: j out)
  case 0
  then have "\<not> 0 \<le> j" by simp
  with 0 show ?case by (simp add: rows_loop_done)
next
  case (Suc n)
  then have j: "0 \<le> j" by linarith
  have n: "n = nat (j - 1 + 1)" using Suc.hyps(2) by linarith
  from Suc.prems j obtain out' where
    o: "row_loop w fb j 0 out = Inr out'" "rows_loop w fb (j - 1) out' = Inr res"
    by (subst (asm) rows_loop.simps) (auto split: sum.splits)
  from row_loop_extends [OF o(1)] obtain d1 where
    d1: "out' = out @ d1" "length d1 = 3 * nat w" by auto
  from Suc.hyps(1) [OF n o(2)] obtain d2 where
    d2: "res = out' @ d2" "length d2 = 3 * nat w * nat (j - 1 + 1)" by blast
  have "nat (j + 1) = nat (j - 1 + 1) + 1" using j by simp
  then have "length (d1 @ d2) = 3 * nat w * nat (j + 1)"
    using d1(2) d2(2) by (simp add: algebra_simps)
  with d1(1) d2(1) show ?case by (intro exI [of _ "d1 @ d2"]) simp
qed

lemma writeBMP_Inr:
  assumes "writeBMP w h fb = Inr bytes"
  shows "int32 (w * h * 3) \<and>
         (\<exists>data. bytes = header_bytes w h @ data \<and> length data = 3 * nat w * nat h)"
proof -
  from assms have "(if \<not> int32 (w * h) \<or> \<not> int32 (w * h * 3) then Inl SignedOverflow
      else if \<not> int32 (h - 1) then Inl SignedOverflow
      else rows_loop w fb (h - 1) (header_bytes w h)) = Inr bytes"
    unfolding writeBMP_def Let_def headers_written .
  then have r: "int32 (w * h * 3)"
    and l: "rows_loop w fb (h - 1) (header_bytes w h) = Inr bytes"
    by (simp_all split: if_splits)
  from rows_loop_extends [OF l] r show ?thesis by simp
qed

lemma sint_int32: "int32 n \<Longrightarrow> sint (word_of_int n :: 32 word) = n"
  by (simp add: int32_def signed_of_int signed_take_bit_int_eq_self)

lemma unat_fileSize:
  assumes "0 \<le> n" "n < 2 ^ 31"
  shows "unat (word_of_int (14 + 40 + n) :: 32 word) = nat (54 + n)"
proof -
  have m: "(14 + 40 + n) mod 2 ^ 32 = 54 + n" using assms by simp
  have "uint (word_of_int (14 + 40 + n) :: 32 word) = (14 + 40 + n) mod 2 ^ 32"
    by (simp only: uint_word_of_int) simp
  then show ?thesis by (simp only: unat_eq_nat_uint m)
qed


subsection \<open>The pixel data\<close>

lemma writeBMP_closed:
  assumes wh: "int32 w" "int32 h" "0 \<le> w" "0 \<le> h" and r: "int32 (w * h * 3)"
    and len: "w * h \<le> int (length fb)"
  shows "writeBMP w h fb =
           Inr (header_bytes w h @ pixel_data w h fb)"
proof -
  have nn: "0 \<le> w * h" using wh by simp
  then have r1: "int32 (w * h)" using r unfolding int32_def by linarith
  have r2: "int32 (h - 1)" using wh unfolding int32_def by linarith
  have e: "(h - 1 + 1) * w = w * h" by (simp add: algebra_simps)
  have "writeBMP w h fb = rows_loop w fb (h - 1) (header_bytes w h)"
    unfolding writeBMP_def Let_def headers_written using r r1 r2 by simp
  also have "\<dots> = Inr (header_bytes w h @ pixel_data w h fb)"
    unfolding pixel_data_def
    using wh(3) r1 len by (intro rows_loop_closed) (simp_all only: e)
  finally show ?thesis .
qed

lemma length_pixel_data:
  assumes wh: "int32 w" "int32 h" "0 \<le> w" "0 \<le> h" and r: "int32 (w * h * 3)"
    and len: "w * h \<le> int (length fb)"
  shows "length (pixel_data w h fb) = nat (w * h * 3)"
proof -
  from writeBMP_Inr [OF writeBMP_closed [OF assms]]
  have "length (pixel_data w h fb) = 3 * nat w * nat h"
    by auto
  also have "\<dots> = nat (w * h * 3)"
    using wh by (simp add: nat_mult_distrib algebra_simps)
  finally show ?thesis .
qed

lemma pixel_index:
  assumes "0 \<le> j" "j \<le> h - 1" "0 \<le> i" "i \<le> w - 1" "w * h \<le> int (length fb)"
  shows "nat (j * w + i) < length fb"
proof -
  have w: "0 \<le> w" using assms by linarith
  have "j * w \<le> (h - 1) * w" using assms(2) w by (rule mult_right_mono)
  then have "j * w + i < w * h" using assms(4) by (simp add: algebra_simps)
  moreover have "0 \<le> j * w" using assms(1) w by simp
  ultimately show ?thesis using assms(3,5) by linarith
qed

lemma pixel_data_bytes:
  assumes len: "w * h \<le> int (length fb)"
    and b: "b \<in> set (pixel_data w h fb)"
  shows "\<exists>p\<in>set fb. b \<in> set (bgr p)"
proof -
  from b obtain j i where j: "0 \<le> j" "j \<le> h - 1" and i: "0 \<le> i" "i \<le> w - 1"
    and m: "b \<in> set (bgr (fb ! nat (j * w + i)))"
    by (auto simp: row_bytes_def pixel_data_def)
  have "fb ! nat (j * w + i) \<in> set fb"
    using pixel_index [OF j i len] by simp
  with m show ?thesis by blast
qed

text \<open>
  The conversion of a product in the range of a 32-bit integer: the low 8 bits of the
  truncated value, which is the truncated value itself in \<open>0..255\<close>.
\<close>

lemma to_uint8_in_range:
  "int32 (trunc_toward_zero v) \<Longrightarrow> to_uint8 v = word_of_int (trunc_toward_zero v)"
  by (simp add: to_uint8_def cvttsd2si_def)

lemma unat_byte: "unat (word_of_int k :: byte) = nat (k mod 256)"
proof -
  have "uint (word_of_int k :: byte) = k mod 2 ^ 8"
    by (simp only: uint_word_of_int) simp
  then show ?thesis by (simp add: unat_eq_nat_uint)
qed

lemma bgr_in_range:
  "pixel_in_range p \<Longrightarrow>
     bgr p = [word_of_int (trunc_toward_zero (255.999 * vz p)),
              word_of_int (trunc_toward_zero (255.999 * vy p)),
              word_of_int (trunc_toward_zero (255.999 * vx p))]"
  unfolding bgr_def pixel_in_range_def by (simp only: to_uint8_in_range)

lemma white: "bgr (Vector3 1 1 1) = [255, 255, 255]"
  by (simp add: bgr_def to_uint8_def cvttsd2si_def int32_def trunc_toward_zero_def)

lemma writeBMP_white:
  assumes wh: "int32 w" "int32 h" "0 \<le> w" "0 \<le> h" and r: "int32 (w * h * 3)"
  shows "writeBMP w h (replicate (nat (w * h)) (Vector3 1 1 1)) =
           Inr (header_bytes w h @ replicate (nat (w * h * 3)) 255)"
proof -
  let ?fb = "replicate (nat (w * h)) (Vector3 1 1 1)"
  let ?data = "pixel_data w h ?fb"
  have len: "w * h \<le> int (length ?fb)" using wh by simp
  have "length ?data = nat (w * h * 3)"
    using wh r len by (rule length_pixel_data)
  moreover have "b = 255" if "b \<in> set ?data" for b
  proof -
    from pixel_data_bytes [OF len that] obtain p where "p \<in> set ?fb" "b \<in> set (bgr p)"
      by blast
    then show ?thesis by (auto simp: white split: if_splits)
  qed
  ultimately have "?data = replicate (nat (w * h * 3)) 255"
    by (rule replicate_eqI)
  then show ?thesis using writeBMP_closed [OF wh r len] by simp
qed

text \<open>The position of a pixel in the pixel data.\<close>

lemma length_chunks:
  "\<forall>x\<in>set xs. length (f x) = n \<Longrightarrow> length (concat (map f xs)) = n * length xs"
  by (induction xs) simp_all

lemma nth_chunk:
  "\<forall>x\<in>set xs. length (f x) = n \<Longrightarrow> k < length xs \<Longrightarrow>
     take n (drop (n * k) (concat (map f xs))) = f (xs ! k)"
proof (induction xs arbitrary: k)
  case Nil
  then show ?case by simp
next
  case (Cons x xs)
  show ?case
  proof (cases k)
    case 0
    with Cons.prems show ?thesis by simp
  next
    case (Suc m)
    with Cons.prems have "take n (drop (n * m) (concat (map f xs))) = f (xs ! m)"
      by (intro Cons.IH) simp_all
    with Cons.prems Suc show ?thesis by simp
  qed
qed

lemma length_bgr: "length (bgr p) = 3"
  by (simp add: bgr_def)

lemma length_row_bytes: "length (row_bytes w fb j) = 3 * nat w"
  unfolding row_bytes_def by (subst length_chunks [where n = 3]) (simp_all add: length_bgr)

lemma pixel_in_row:
  assumes "0 \<le> i" "i < w"
  shows "take 3 (drop (3 * nat i) (row_bytes w fb j)) = bgr (fb ! nat (j * w + i))"
proof -
  have k: "nat i < length [0..w - 1]" using assms by simp
  have "[0..w - 1] ! nat i = i" using assms by simp
  then show ?thesis
    unfolding row_bytes_def
    using nth_chunk [where f = "\<lambda>i. bgr (fb ! nat (j * w + i))" and n = 3, OF _ k]
    by (simp add: length_bgr)
qed

lemma row_in_data:
  assumes "0 \<le> j" "j < h"
  shows "take (3 * nat w) (drop (3 * nat w * nat (h - 1 - j))
           (pixel_data w h fb)) = row_bytes w fb j"
proof -
  have k: "nat (h - 1 - j) < length (rev [0..h - 1])" using assms by simp
  have "rev [0..h - 1] ! nat (h - 1 - j) = j"
    using assms by (simp add: rev_nth nat_diff_distrib)
  then show ?thesis
    using nth_chunk [where f = "row_bytes w fb" and n = "3 * nat w", OF _ k]
    by (simp add: length_row_bytes pixel_data_def)
qed

lemma take_drop_take: "a + b \<le> c \<Longrightarrow> take a (drop b (take c xs)) = take a (drop b xs)"
  by (simp add: drop_take min_def)

lemma pixel_in_data:
  assumes j: "0 \<le> j" "j < h" and i: "0 \<le> i" "i < w"
  shows "take 3 (drop (3 * nat ((h - 1 - j) * w + i))
           (pixel_data w h fb)) = bgr (fb ! nat (j * w + i))"
proof -
  let ?data = "pixel_data w h fb"
  let ?r = "3 * nat w * nat (h - 1 - j)"
  have k: "0 \<le> h - 1 - j" and w: "0 \<le> w" using j i by linarith+
  have "nat ((h - 1 - j) * w + i) = nat ((h - 1 - j) * w) + nat i"
    using k w i by (intro nat_add_distrib) simp_all
  also have "nat ((h - 1 - j) * w) = nat (h - 1 - j) * nat w"
    using k by (rule nat_mult_distrib)
  finally have off: "3 * nat ((h - 1 - j) * w + i) = 3 * nat i + ?r"
    by (simp add: algebra_simps)
  have fit: "3 + 3 * nat i \<le> 3 * nat w" using i by linarith
  have "bgr (fb ! nat (j * w + i)) = take 3 (drop (3 * nat i) (row_bytes w fb j))"
    using i by (simp add: pixel_in_row)
  also have "\<dots> = take 3 (drop (3 * nat i) (take (3 * nat w) (drop ?r ?data)))"
    using j by (simp only: row_in_data)
  also have "\<dots> = take 3 (drop (3 * nat i) (drop ?r ?data))"
    using fit by (rule take_drop_take)
  also have "\<dots> = take 3 (drop (3 * nat ((h - 1 - j) * w + i)) ?data)"
    by (simp only: off drop_drop)
  finally show ?thesis by simp
qed

lemma header_bytes_split:
  "header_bytes w h =
     ([0x42, 0x4D] @ bytes32 (word_of_int (14 + 40 + w * h * 3)) @ [0, 0] @ [0, 0] @
        [54, 0, 0, 0]) @
     ([40, 0, 0, 0] @ bytes32 (word_of_int w) @ bytes32 (word_of_int h) @ [1, 0] @ [24, 0] @
        [0, 0, 0, 0] @ [0, 0, 0, 0] @ [0, 0, 0, 0] @ [0, 0, 0, 0] @ [0, 0, 0, 0] @
        [0, 0, 0, 0])"
  by (simp add: header_bytes_def)

lemma take_drop_parts:
  "length a = m \<Longrightarrow> length b = n \<Longrightarrow>
     take m ((a @ b) @ c) = a \<and> take n (drop m ((a @ b) @ c)) = b"
  by simp

lemma upto_small: "[0..0::int] = [0]" "[0..1::int] = [0, 1]"
  by (simp_all add: upto.simps)

lemma writeBMP_two_pixels:
  "writeBMP 2 1 [Vector3 1 1 1, Vector3 0 0 0] =
     Inr (header_bytes 2 1 @ [255, 255, 255, 0, 0, 0])"
proof -
  have "writeBMP 2 1 [Vector3 1 1 1, Vector3 0 0 0] =
      Inr (header_bytes 2 1 @ pixel_data 2 1 [Vector3 1 1 1, Vector3 0 0 0])"
    by (rule writeBMP_closed) (simp_all add: int32_def)
  then show ?thesis
    by (simp add: pixel_data_def row_bytes_def bgr_def to_uint8_def cvttsd2si_def int32_def
        trunc_toward_zero_def upto_small)
qed

text \<open>
  Claim C7. A file that \<open>writeBMP\<close> produces for an image of width \<open>w\<close> and height
  \<open>h\<close> starts with the 14 bytes of the file header: the magic number \<open>0x4D42\<close> as
  \<open>42 4D\<close>, the four bytes of \<open>14 + 40 + w * h * 3\<close>, two reserved fields of two zero
  bytes, and the four bytes of the offset 54. The next 40 bytes are the info header: the
  four bytes of 40, of \<open>w\<close> and of \<open>h\<close>, the two bytes of 1 and of 24, and six fields
  of four zero bytes (compression, image size, the two densities, palette size, important
  colours). Every field is stored least significant byte first, \<open>w\<close> and \<open>h\<close> in
  two's complement, and for \<open>w, h \<ge> 0\<close> the size field is the length of the file.
\<close>

theorem writeBMP_headers:
  "int32 w \<and> int32 h \<and> writeBMP w h fb = Inr bytes \<Longrightarrow>
   take 14 bytes =
     [0x42, 0x4D] @ bytes32 (word_of_int (14 + 40 + w * h * 3)) @ [0, 0] @ [0, 0] @
     [54, 0, 0, 0] \<and>
   take 40 (drop 14 bytes) =
     [40, 0, 0, 0] @ bytes32 (word_of_int w) @ bytes32 (word_of_int h) @ [1, 0] @ [24, 0] @
     [0, 0, 0, 0] @ [0, 0, 0, 0] @ [0, 0, 0, 0] @ [0, 0, 0, 0] @ [0, 0, 0, 0] @ [0, 0, 0, 0] \<and>
   le_value [0x42, 0x4D] = 0x4D42 \<and> le_value [54, 0, 0, 0] = 54 \<and>
   le_value [40, 0, 0, 0] = 40 \<and> le_value [1, 0] = 1 \<and> le_value [24, 0] = 24 \<and>
   length (bytes32 x) = 4 \<and> le_value (bytes32 x) = unat x \<and>
   sint (word_of_int w :: 32 word) = w \<and> sint (word_of_int h :: 32 word) = h \<and>
   (0 \<le> w \<and> 0 \<le> h \<longrightarrow>
      unat (word_of_int (14 + 40 + w * h * 3) :: 32 word) = length bytes)"
proof -
  assume a: "int32 w \<and> int32 h \<and> writeBMP w h fb = Inr bytes"
  then obtain data where r: "int32 (w * h * 3)"
    and b: "bytes = header_bytes w h @ data" and l: "length data = 3 * nat w * nat h"
    using writeBMP_Inr [of w h fb bytes] by blast
  let ?A = "[0x42, 0x4D] @ bytes32 (word_of_int (14 + 40 + w * h * 3)) @ [0, 0] @ [0, 0] @
     [54, 0, 0, 0]"
  let ?B = "[40, 0, 0, 0] @ bytes32 (word_of_int w) @ bytes32 (word_of_int h) @ [1, 0] @
     [24, 0] @ [0, 0, 0, 0] @ [0, 0, 0, 0] @ [0, 0, 0, 0] @ [0, 0, 0, 0] @ [0, 0, 0, 0] @
     [0, 0, 0, 0]"
  have lA: "length ?A = 14" and lB: "length ?B = 40" by (simp_all add: length_bytes)
  have bs: "bytes = (?A @ ?B) @ data" by (simp only: b header_bytes_split)
  have parts: "take 14 bytes = ?A \<and> take 40 (drop 14 bytes) = ?B"
    unfolding bs using lA lB by (rule take_drop_parts)
  have cs: "le_value [0x42, 0x4D] = 0x4D42 \<and> le_value [54, 0, 0, 0] = 54 \<and>
      le_value [40, 0, 0, 0] = 40 \<and> le_value [1, 0] = 1 \<and> le_value [24, 0] = 24"
    by simp
  have dec: "length (bytes32 x) = 4 \<and> le_value (bytes32 x) = unat x"
    by (simp add: length_bytes le_value_bytes32)
  have sg: "sint (word_of_int w :: 32 word) = w \<and> sint (word_of_int h :: 32 word) = h"
    using a by (simp add: sint_int32)
  have sz: "unat (word_of_int (14 + 40 + w * h * 3) :: 32 word) = length bytes"
    if "0 \<le> w \<and> 0 \<le> h"
  proof -
    have n: "0 \<le> w * h * 3" using that by simp
    have "length bytes = 54 + 3 * nat w * nat h"
      by (simp add: b l length_header_bytes)
    also have "\<dots> = nat (54 + w * h * 3)"
      using that by (simp add: nat_add_distrib nat_mult_distrib algebra_simps)
    finally show ?thesis using unat_fileSize [OF n] r by (simp add: int32_def)
  qed
  from parts cs dec sg sz show ?thesis by blast
qed

theorem writeBMP_headers_witness:
  "int32 2 \<and> int32 1 \<and>
   writeBMP 2 1 [Vector3 1 1 1, Vector3 0 0 0] =
     Inr (header_bytes 2 1 @ [255, 255, 255, 0, 0, 0]) \<and>
   take 14 (header_bytes 2 1 @ [255, 255, 255, 0, 0, 0]) =
     [0x42, 0x4D, 60, 0, 0, 0, 0, 0, 0, 0, 54, 0, 0, 0] \<and>
   take 40 (drop 14 (header_bytes 2 1 @ [255, 255, 255, 0, 0, 0])) =
     [40, 0, 0, 0, 2, 0, 0, 0, 1, 0, 0, 0, 1, 0, 24, 0, 0, 0, 0, 0, 0, 0, 0, 0, 0, 0, 0, 0,
      0, 0, 0, 0, 0, 0, 0, 0, 0, 0, 0, 0] \<and>
   length (header_bytes 2 1 @ [255, 255, 255, 0, 0, 0]) = 60"
  using writeBMP_headers
    [of 2 1 "[Vector3 1 1 1, Vector3 0 0 0]" "header_bytes 2 1 @ [255, 255, 255, 0, 0, 0]" 0]
    writeBMP_two_pixels
  by (simp add: int32_def bytes32_def le_bytes_4 length_header_bytes)

lemma writeBMP_four_pixels:
  "writeBMP 2 2 [Vector3 1 0 0, Vector3 1.5 (- 1) 2, Vector3 0 0 1, Vector3 1 1 1] =
     Inr (header_bytes 2 2 @ [255, 0, 0, 255, 255, 255, 0, 0, 255, 255, 1, 127])"
proof -
  have "writeBMP 2 2 [Vector3 1 0 0, Vector3 1.5 (- 1) 2, Vector3 0 0 1, Vector3 1 1 1] =
      Inr (header_bytes 2 2 @
        pixel_data 2 2 [Vector3 1 0 0, Vector3 1.5 (- 1) 2, Vector3 0 0 1, Vector3 1 1 1])"
    by (rule writeBMP_closed) (simp_all add: int32_def)
  then show ?thesis
    by (simp add: pixel_data_def row_bytes_def bgr_def to_uint8_def cvttsd2si_def int32_def
        trunc_toward_zero_def upto_small)
qed

lemma writeBMP_negative_pixel:
  "writeBMP 1 1 [Vector3 (- 0.001) 0 0] = Inr (header_bytes 1 1 @ [0, 0, 0])"
proof -
  have "writeBMP 1 1 [Vector3 (- 0.001) 0 0] =
      Inr (header_bytes 1 1 @ pixel_data 1 1 [Vector3 (- 0.001) 0 0])"
    by (rule writeBMP_closed) (simp_all add: int32_def)
  then show ?thesis
    by (simp add: pixel_data_def row_bytes_def bgr_def to_uint8_def cvttsd2si_def int32_def
        trunc_toward_zero_def upto_small)
qed

text \<open>
  Claim C4, as the code has it. For an image of width \<open>w\<close> and height \<open>h\<close>, both at
  least 0, with \<open>w * h * 3\<close> in the range of \<open>int\<close> and a buffer of at least \<open>w * h\<close>
  pixels, the file is the 54 header bytes followed by the pixel data, \<open>w * h * 3\<close> bytes
  without padding: the rows from the last to the first, each row its pixels from the
  first column on, each pixel three bytes, blue, green, red, so that pixel \<open>(i, j)\<close> is
  at offset \<open>54 + 3 * ((h - 1 - j) * w + i)\<close> of the file. A channel is \<open>255.999\<close>
  times the component truncated towards zero and narrowed to 8 bits without clamping:
  the byte is the truncated value modulo 256, for a product in the range of a 32-bit
  integer. The file of an all-white buffer has \<open>54 + w * h * 3\<close> bytes, and every byte
  of its pixel data is 255.
\<close>

theorem writeBMP_pixel_data:
  "int32 w \<and> int32 h \<and> 0 \<le> w \<and> 0 \<le> h \<and> int32 (w * h * 3) \<and>
   w * h \<le> int (length fb) \<Longrightarrow>
   (\<exists>bytes. writeBMP w h fb = Inr bytes \<and>
      length bytes = nat (54 + w * h * 3) \<and>
      drop 54 bytes =
        concat (map (\<lambda>j. concat (map (\<lambda>i. bgr (fb ! nat (j * w + i))) [0..w - 1]))
          (rev [0..h - 1])) \<and>
      (\<forall>i j. 0 \<le> i \<and> i < w \<and> 0 \<le> j \<and> j < h \<and> pixel_in_range (fb ! nat (j * w + i)) \<longrightarrow>
         take 3 (drop (54 + 3 * nat ((h - 1 - j) * w + i)) bytes) =
           [word_of_int (trunc_toward_zero (255.999 * vz (fb ! nat (j * w + i)))),
            word_of_int (trunc_toward_zero (255.999 * vy (fb ! nat (j * w + i)))),
            word_of_int (trunc_toward_zero (255.999 * vx (fb ! nat (j * w + i))))] \<and>
         map unat (take 3 (drop (54 + 3 * nat ((h - 1 - j) * w + i)) bytes)) =
           [nat (trunc_toward_zero (255.999 * vz (fb ! nat (j * w + i))) mod 256),
            nat (trunc_toward_zero (255.999 * vy (fb ! nat (j * w + i))) mod 256),
            nat (trunc_toward_zero (255.999 * vx (fb ! nat (j * w + i))) mod 256)])) \<and>
   (\<forall>c\<ge>0. trunc_toward_zero (255.999 * c) = \<lfloor>255.999 * c\<rfloor>) \<and>
   writeBMP w h (replicate (nat (w * h)) (Vector3 1 1 1)) =
     Inr (header_bytes w h @ replicate (nat (w * h * 3)) 255) \<and>
   length (header_bytes w h @ replicate (nat (w * h * 3)) 255) = nat (54 + w * h * 3)"
proof -
  assume a: "int32 w \<and> int32 h \<and> 0 \<le> w \<and> 0 \<le> h \<and> int32 (w * h * 3) \<and>
    w * h \<le> int (length fb)"
  then have wh: "int32 w" "int32 h" "0 \<le> w" "0 \<le> h" and r: "int32 (w * h * 3)"
    and len: "w * h \<le> int (length fb)"
    by simp_all
  let ?bytes = "header_bytes w h @ pixel_data w h fb"
  have nn: "0 \<le> w * h * 3" using wh by simp
  have res: "writeBMP w h fb = Inr ?bytes"
    using wh r len by (rule writeBMP_closed)
  have "length (pixel_data w h fb) = nat (w * h * 3)"
    using wh r len by (rule length_pixel_data)
  then have sz: "length ?bytes = nat (54 + w * h * 3)"
    using nn by (simp add: length_header_bytes nat_add_distrib)
  have rows: "drop 54 ?bytes =
      concat (map (\<lambda>j. concat (map (\<lambda>i. bgr (fb ! nat (j * w + i))) [0..w - 1]))
        (rev [0..h - 1]))"
    by (simp add: length_header_bytes pixel_data_def row_bytes_def [abs_def])
  have at: "take 3 (drop (54 + 3 * nat ((h - 1 - j) * w + i)) ?bytes) =
        [word_of_int (trunc_toward_zero (255.999 * vz (fb ! nat (j * w + i)))),
         word_of_int (trunc_toward_zero (255.999 * vy (fb ! nat (j * w + i)))),
         word_of_int (trunc_toward_zero (255.999 * vx (fb ! nat (j * w + i))))] \<and>
      map unat (take 3 (drop (54 + 3 * nat ((h - 1 - j) * w + i)) ?bytes)) =
        [nat (trunc_toward_zero (255.999 * vz (fb ! nat (j * w + i))) mod 256),
         nat (trunc_toward_zero (255.999 * vy (fb ! nat (j * w + i))) mod 256),
         nat (trunc_toward_zero (255.999 * vx (fb ! nat (j * w + i))) mod 256)]"
    if c: "0 \<le> i \<and> i < w \<and> 0 \<le> j \<and> j < h \<and> pixel_in_range (fb ! nat (j * w + i))"
    for i j
  proof -
    have "drop (54 + 3 * nat ((h - 1 - j) * w + i)) ?bytes =
        drop (3 * nat ((h - 1 - j) * w + i)) (pixel_data w h fb)"
      by (simp add: length_header_bytes)
    then have "take 3 (drop (54 + 3 * nat ((h - 1 - j) * w + i)) ?bytes) =
        bgr (fb ! nat (j * w + i))"
      using c by (simp only: pixel_in_data)
    then show ?thesis using c by (simp only: bgr_in_range list.map unat_byte simp_thms)
  qed
  have fl: "\<forall>c\<ge>0. trunc_toward_zero (255.999 * c) = \<lfloor>255.999 * c :: real\<rfloor>"
    by (simp add: trunc_toward_zero_def)
  have wt: "writeBMP w h (replicate (nat (w * h)) (Vector3 1 1 1)) =
      Inr (header_bytes w h @ replicate (nat (w * h * 3)) 255)"
    using wh r by (rule writeBMP_white)
  have wl: "length (header_bytes w h @ replicate (nat (w * h * 3)) 255) =
      nat (54 + w * h * 3)"
    using nn by (simp add: length_header_bytes nat_add_distrib)
  from res sz rows at have "\<exists>bytes. writeBMP w h fb = Inr bytes \<and>
      length bytes = nat (54 + w * h * 3) \<and>
      drop 54 bytes =
        concat (map (\<lambda>j. concat (map (\<lambda>i. bgr (fb ! nat (j * w + i))) [0..w - 1]))
          (rev [0..h - 1])) \<and>
      (\<forall>i j. 0 \<le> i \<and> i < w \<and> 0 \<le> j \<and> j < h \<and> pixel_in_range (fb ! nat (j * w + i)) \<longrightarrow>
         take 3 (drop (54 + 3 * nat ((h - 1 - j) * w + i)) bytes) =
           [word_of_int (trunc_toward_zero (255.999 * vz (fb ! nat (j * w + i)))),
            word_of_int (trunc_toward_zero (255.999 * vy (fb ! nat (j * w + i)))),
            word_of_int (trunc_toward_zero (255.999 * vx (fb ! nat (j * w + i))))] \<and>
         map unat (take 3 (drop (54 + 3 * nat ((h - 1 - j) * w + i)) bytes)) =
           [nat (trunc_toward_zero (255.999 * vz (fb ! nat (j * w + i))) mod 256),
            nat (trunc_toward_zero (255.999 * vy (fb ! nat (j * w + i))) mod 256),
            nat (trunc_toward_zero (255.999 * vx (fb ! nat (j * w + i))) mod 256)])"
    by (intro exI [of _ ?bytes]) blast
  with fl wt wl show ?thesis by blast
qed

text \<open>
  The witness is a 2 by 2 image whose pixel \<open>(1, 0)\<close> is \<open>(1.5, -1, 2)\<close>: the products
  truncate to 383, \<open>-255\<close> and 511, and the bytes written are 255, 1 and 127 for blue,
  green and red, where a clamping conversion would give 255, 0 and 255. The row of that
  pixel is the last in the file.
\<close>

theorem writeBMP_pixel_data_witness:
  "writeBMP 2 2 [Vector3 1 0 0, Vector3 1.5 (- 1) 2, Vector3 0 0 1, Vector3 1 1 1] =
     Inr (header_bytes 2 2 @ [255, 0, 0, 255, 255, 255, 0, 0, 255, 255, 1, 127]) \<and>
   take 3 (drop (54 + 3 * nat ((2 - 1 - 0) * 2 + 1))
     (header_bytes 2 2 @ [255, 0, 0, 255, 255, 255, 0, 0, 255, 255, 1, 127])) =
     [word_of_int 511, word_of_int (- 255), word_of_int 383] \<and>
   length (header_bytes 2 2 @ [255 :: byte, 0, 0, 255, 255, 255, 0, 0, 255, 255, 1, 127]) =
     66 \<and>
   writeBMP 2 2 (replicate 4 (Vector3 1 1 1)) = Inr (header_bytes 2 2 @ replicate 12 255)"
proof -
  let ?fb = "[Vector3 1 0 0, Vector3 1.5 (- 1) 2, Vector3 0 0 1, Vector3 1 1 1]"
  let ?out = "header_bytes 2 2 @ [255 :: byte, 0, 0, 255, 255, 255, 0, 0, 255, 255, 1, 127]"
  have h: "int32 2 \<and> int32 2 \<and> (0::int) \<le> 2 \<and> (0::int) \<le> 2 \<and> int32 (2 * 2 * 3) \<and>
      2 * 2 \<le> int (length ?fb)"
    by (simp add: int32_def)
  note t = writeBMP_pixel_data [of 2 2 ?fb, OF h]
  have 1: "writeBMP 2 2 ?fb = Inr ?out" by (rule writeBMP_four_pixels)
  from t obtain bytes where b: "writeBMP 2 2 ?fb = Inr bytes"
    and l: "length bytes = nat (54 + 2 * 2 * 3)"
    and at: "\<forall>i j. 0 \<le> i \<and> i < 2 \<and> 0 \<le> j \<and> j < 2 \<and> pixel_in_range (?fb ! nat (j * 2 + i)) \<longrightarrow>
         take 3 (drop (54 + 3 * nat ((2 - 1 - j) * 2 + i)) bytes) =
           [word_of_int (trunc_toward_zero (255.999 * vz (?fb ! nat (j * 2 + i)))),
            word_of_int (trunc_toward_zero (255.999 * vy (?fb ! nat (j * 2 + i)))),
            word_of_int (trunc_toward_zero (255.999 * vx (?fb ! nat (j * 2 + i))))] \<and>
         map unat (take 3 (drop (54 + 3 * nat ((2 - 1 - j) * 2 + i)) bytes)) =
           [nat (trunc_toward_zero (255.999 * vz (?fb ! nat (j * 2 + i))) mod 256),
            nat (trunc_toward_zero (255.999 * vy (?fb ! nat (j * 2 + i))) mod 256),
            nat (trunc_toward_zero (255.999 * vx (?fb ! nat (j * 2 + i))) mod 256)]"
    by blast
  from b 1 have e: "bytes = ?out" by simp
  have "0 \<le> (1::int) \<and> (1::int) < 2 \<and> 0 \<le> (0::int) \<and> (0::int) < 2 \<and>
      pixel_in_range (?fb ! nat (0 * 2 + 1))"
    by (simp add: pixel_in_range_def int32_def trunc_toward_zero_def)
  with at have "take 3 (drop (54 + 3 * nat ((2 - 1 - 0) * 2 + 1)) bytes) =
      [word_of_int (trunc_toward_zero (255.999 * vz (?fb ! nat (0 * 2 + 1)))),
       word_of_int (trunc_toward_zero (255.999 * vy (?fb ! nat (0 * 2 + 1)))),
       word_of_int (trunc_toward_zero (255.999 * vx (?fb ! nat (0 * 2 + 1))))]"
    by blast
  then have 2: "take 3 (drop (54 + 3 * nat ((2 - 1 - 0) * 2 + 1)) ?out) =
      [word_of_int 511, word_of_int (- 255), word_of_int 383]"
    unfolding e by (simp add: trunc_toward_zero_def)
  from l have 3: "length ?out = 66" unfolding e by simp
  from t have "writeBMP 2 2 (replicate (nat (2 * 2)) (Vector3 1 1 1)) =
      Inr (header_bytes 2 2 @ replicate (nat (2 * 2 * 3)) 255)" by blast
  then have 4: "writeBMP 2 2 (replicate 4 (Vector3 1 1 1)) =
      Inr (header_bytes 2 2 @ replicate 12 255)" by simp
  from 1 2 3 4 show ?thesis by (simp only: simp_thms)
qed

text \<open>
  Claim C4 as the specification words it has the channel as the floor of \<open>255.999\<close>
  times the component, narrowed to 8 bits. For the pixel \<open>(-0.001, 0, 0)\<close> the product
  is \<open>-0.255999\<close>: the conversion truncates it to 0 and the file has the red byte 0,
  while the floor is \<open>-1\<close>, which narrows to 255.
\<close>

theorem writeBMP_floor_counterexample:
  "writeBMP 1 1 [Vector3 (- 0.001) 0 0] = Inr (header_bytes 1 1 @ [0, 0, 0]) \<and>
   writeBMP 1 1 [Vector3 (- 0.001) 0 0] \<noteq>
     Inr (header_bytes 1 1 @
       [word_of_int \<lfloor>255.999 * (0 :: real)\<rfloor>, word_of_int \<lfloor>255.999 * (0 :: real)\<rfloor>,
        word_of_int \<lfloor>255.999 * (- 0.001 :: real)\<rfloor>])"
  using writeBMP_negative_pixel by simp

end
